theory Spec2Isabelle
  imports Main "HOL-Library.AList" "HOL-Library.Multiset"
begin

section \<open>JavaScript values and strings\<close>

text \<open>
  The connector is duck-typed JavaScript: device records, endpoint records and
  property mappings are plain objects parsed from JSON, and the mapper guards every
  access (\<^verbatim>\<open>dev?.displayName || ''\<close>, \<^verbatim>\<open>String(x || '')\<close>). The embedding keeps that: a
  value is a \<open>jsval\<close>, an object is an association list of its own data properties in
  insertion order (lookup takes the first binding of a key), and the coercions
  \<^verbatim>\<open>Boolean\<close>, \<^verbatim>\<open>String\<close> and \<^verbatim>\<open>typeof\<close> are functions on \<open>jsval\<close>.

  Scope of the value model: numbers are integers (JSON integers in the range where
  \<^verbatim>\<open>String(n)\<close> is the plain decimal numeral); a string is a list of code units in
  the range 0..255 (the Latin-1 part of UTF-16); property lookup is that of a plain
  record: it sees the own data properties of an object, while the indices and
  \<^verbatim>\<open>length\<close> of an array or string and the members inherited from a prototype
  (\<^verbatim>\<open>constructor\<close>, \<^verbatim>\<open>toString\<close>) are outside the model.
\<close>

datatype jsval =
    JUndefined
  | JNull
  | JBool bool
  | JNum int
  | JStr string
  | JArr "jsval list"
  | JObj "(string \<times> jsval) list"

type_synonym jsobject = "(string \<times> jsval) list"

text \<open>\<^verbatim>\<open>Boolean(v)\<close>, the test behind \<^verbatim>\<open>!v\<close>, \<^verbatim>\<open>a || b\<close> and \<^verbatim>\<open>c ? a : b\<close>.\<close>

fun truthy :: "jsval \<Rightarrow> bool" where
  "truthy JUndefined = False"
| "truthy JNull = False"
| "truthy (JBool b) = b"
| "truthy (JNum n) = (n \<noteq> 0)"
| "truthy (JStr s) = (s \<noteq> [])"
| "truthy (JArr xs) = True"
| "truthy (JObj kvs) = True"

text \<open>\<^verbatim>\<open>a || b\<close>\<close>

definition js_or :: "jsval \<Rightarrow> jsval \<Rightarrow> jsval" where
  "js_or a b = (if truthy a then a else b)"

text \<open>\<^verbatim>\<open>typeof v === 'object'\<close> (true of \<^verbatim>\<open>null\<close> and of arrays as well).\<close>

fun typeof_object :: "jsval \<Rightarrow> bool" where
  "typeof_object JNull = True"
| "typeof_object (JArr xs) = True"
| "typeof_object (JObj kvs) = True"
| "typeof_object v = False"

text \<open>
  \<^verbatim>\<open>v?.[k]\<close>: \<^verbatim>\<open>undefined\<close> on \<^verbatim>\<open>null\<close> and \<^verbatim>\<open>undefined\<close>, the own property of an object,
  \<^verbatim>\<open>undefined\<close> where there is none.
\<close>

fun js_get :: "jsval \<Rightarrow> string \<Rightarrow> jsval" where
  "js_get (JObj kvs) k = (case map_of kvs k of Some v \<Rightarrow> v | None \<Rightarrow> JUndefined)"
| "js_get v k = JUndefined"

subsection \<open>Decimal numerals\<close>

definition digit_char :: "nat \<Rightarrow> char" where
  "digit_char d = char_of (48 + d)"

function show_nat :: "nat \<Rightarrow> string" where
  "show_nat n = (if n < 10 then [digit_char n] else show_nat (n div 10) @ [digit_char (n mod 10)])"
  by pat_completeness auto
termination
  by (relation "measure id") auto

declare show_nat.simps [simp del]

definition show_int :: "int \<Rightarrow> string" where
  "show_int i = (if i < 0 then CHR ''-'' # show_nat (nat (- i)) else show_nat (nat i))"

subsection \<open>String operations\<close>

text \<open>
  White space as \<^verbatim>\<open>String.prototype.trim\<close> and the regular expression class \<^verbatim>\<open>\s\<close>
  see it, among the code units below 256: TAB, LF, VT, FF, CR, SPACE and NBSP.
\<close>

definition is_space :: "char \<Rightarrow> bool" where
  "is_space c = ((of_char c :: nat) \<in> {9, 10, 11, 12, 13, 32, 160})"

definition trim :: "string \<Rightarrow> string" where
  "trim s = rev (dropWhile is_space (rev (dropWhile is_space s)))"

text \<open>
  \<^verbatim>\<open>toLowerCase\<close> on one code unit: A..Z and the Latin-1 capitals (0xC0..0xDE without
  the multiplication sign 0xD7) move up by 32, everything else stays.
\<close>

definition lower_char :: "char \<Rightarrow> char" where
  "lower_char c =
     (let n = (of_char c :: nat)
      in if (65 \<le> n \<and> n \<le> 90) \<or> (192 \<le> n \<and> n \<le> 222 \<and> n \<noteq> 215)
         then char_of (n + 32) else c)"

definition toLowerCase :: "string \<Rightarrow> string" where
  "toLowerCase s = map lower_char s"

text \<open>\<^verbatim>\<open>s.startsWith(p)\<close>\<close>

definition startsWith :: "string \<Rightarrow> string \<Rightarrow> bool" where
  "startsWith s p = (take (length p) s = p)"

text \<open>\<^verbatim>\<open>s.indexOf('.')\<close>, with \<open>None\<close> for -1.\<close>

fun indexOf :: "string \<Rightarrow> char \<Rightarrow> nat option" where
  "indexOf [] c = None"
| "indexOf (x # xs) c = (if x = c then Some 0 else map_option Suc (indexOf xs c))"

fun join_with :: "string \<Rightarrow> string list \<Rightarrow> string" where
  "join_with sep [] = []"
| "join_with sep [x] = x"
| "join_with sep (x # y # zs) = x @ sep @ join_with sep (y # zs)"

text \<open>
  \<^verbatim>\<open>String(v)\<close>. An array joins the strings of its elements with commas, \<^verbatim>\<open>null\<close> and
  \<^verbatim>\<open>undefined\<close> elements giving the empty string; a plain object gives
  \<^verbatim>\<open>[object Object]\<close>.
\<close>

fun js_String :: "jsval \<Rightarrow> string" where
  "js_String JUndefined = ''undefined''"
| "js_String JNull = ''null''"
| "js_String (JBool b) = (if b then ''true'' else ''false'')"
| "js_String (JNum n) = show_int n"
| "js_String (JStr s) = s"
| "js_String (JArr xs) =
     join_with '','' (map (\<lambda>x. if x = JUndefined \<or> x = JNull then [] else js_String x) xs)"
| "js_String (JObj kvs) = ''[object Object]''"

section \<open>mapping/deviceMapper.js\<close>

definition normalizeName :: "jsval \<Rightarrow> string" where
  "normalizeName str =
     (if str = JNull \<or> str = JUndefined then [] else toLowerCase (trim (js_String str)))"

definition stripFqdn :: "jsval \<Rightarrow> string" where
  "stripFqdn name =
     (let s = trim (js_String (js_or name (JStr [])))
      in case indexOf s CHR ''.'' of
           Some dot \<Rightarrow> if dot > 0 then take dot s else s
         | None \<Rightarrow> s)"

definition normalizeShortName :: "jsval \<Rightarrow> string" where
  "normalizeShortName str = normalizeName (JStr (stripFqdn str))"

definition getAction1EndpointName :: "jsval \<Rightarrow> jsval" where
  "getAction1EndpointName endpoint =
     (if \<not> truthy endpoint \<or> \<not> typeof_object endpoint then JStr []
      else js_or (js_or (js_get endpoint ''device_name'') (js_get endpoint ''name'')) (JStr []))"

definition toCustomKey :: "jsval \<Rightarrow> string" where
  "toCustomKey action1CustomAttribute =
     (let raw = trim (js_String (js_or action1CustomAttribute (JStr [])))
      in if raw = [] then []
         else if startsWith (toLowerCase raw) ''custom:'' then raw
         else ''custom:'' @ raw)"

text \<open>
  The two indexes are \<^verbatim>\<open>Map<string, Endpoint[]>\<close>; only \<^verbatim>\<open>has\<close>, \<^verbatim>\<open>get\<close> and \<^verbatim>\<open>set\<close> are
  used, so a map from key to the list of endpoints pushed under it is the whole state.
  \<open>index_push\<close> is the loop body
  \<^verbatim>\<open>if (!key) continue; if (!index.has(key)) index.set(key, []); index.get(key).push(ep)\<close>.
\<close>

type_synonym endpoint_index = "string \<rightharpoonup> jsval list"

definition index_push :: "(jsval \<Rightarrow> string) \<Rightarrow> endpoint_index \<Rightarrow> jsval \<Rightarrow> endpoint_index" where
  "index_push keyOf index ep =
     (let key = keyOf (getAction1EndpointName ep)
      in if key = [] then index
         else index(key \<mapsto> (case index key of None \<Rightarrow> [] | Some eps \<Rightarrow> eps) @ [ep]))"

definition buildEndpointIndex :: "jsval list \<Rightarrow> endpoint_index" where
  "buildEndpointIndex endpoints = foldl (index_push normalizeName) Map.empty endpoints"

definition buildEndpointShortIndex :: "jsval list \<Rightarrow> endpoint_index" where
  "buildEndpointShortIndex endpoints = foldl (index_push normalizeShortName) Map.empty endpoints"

datatype match_type = Full | Short

datatype ambiguity_reason = Duplicate_full | Duplicate_short

record matched_pair =
  entraDevice :: jsval
  endpoint :: jsval
  matchType :: match_type

record ambiguous_entry =
  amb_entraDevice :: jsval
  candidates :: "jsval list"
  reason :: ambiguity_reason

record match_result =
  matched :: "matched_pair list"
  unmatchedEntra :: "jsval list"
  ambiguous :: "ambiguous_entry list"

text \<open>
  One iteration of the loop over the devices in \<^verbatim>\<open>matchDevices\<close>: every path through
  the body ends in one \<^verbatim>\<open>push\<close> (followed by \<^verbatim>\<open>continue\<close> or the end of the body).
\<close>

definition match_step ::
  "endpoint_index \<Rightarrow> endpoint_index \<Rightarrow> match_result \<Rightarrow> jsval \<Rightarrow> match_result" where
  "match_step fullIndex shortIndex acc dev =
     (let entraName = js_or (js_get dev ''displayName'') (JStr []);
          fullKey = normalizeName entraName
      in if fullKey = [] then acc\<lparr>unmatchedEntra := unmatchedEntra acc @ [dev]\<rparr>
         else case fullIndex fullKey of
           Some (c # cs) \<Rightarrow>
             if length (c # cs) > 1
             then acc\<lparr>ambiguous := ambiguous acc @
                    [\<lparr>amb_entraDevice = dev, candidates = c # cs, reason = Duplicate_full\<rparr>]\<rparr>
             else acc\<lparr>matched := matched acc @
                    [\<lparr>entraDevice = dev, endpoint = c, matchType = Full\<rparr>]\<rparr>
         | _ \<Rightarrow>
             (let shortKey = normalizeShortName entraName
              in case shortIndex shortKey of
                   Some (c # cs) \<Rightarrow>
                     if length (c # cs) > 1
                     then acc\<lparr>ambiguous := ambiguous acc @
                            [\<lparr>amb_entraDevice = dev, candidates = c # cs,
                              reason = Duplicate_short\<rparr>]\<rparr>
                     else acc\<lparr>matched := matched acc @
                            [\<lparr>entraDevice = dev, endpoint = c, matchType = Short\<rparr>]\<rparr>
                 | _ \<Rightarrow> acc\<lparr>unmatchedEntra := unmatchedEntra acc @ [dev]\<rparr>))"

definition matchDevices :: "jsval list \<Rightarrow> jsval list \<Rightarrow> match_result" where
  "matchDevices entraDevices action1Endpoints =
     (let fullIndex = buildEndpointIndex action1Endpoints;
          shortIndex = buildEndpointShortIndex action1Endpoints
      in foldl (match_step fullIndex shortIndex)
           \<lparr>matched = [], unmatchedEntra = [], ambiguous = []\<rparr> entraDevices)"

text \<open>
  One iteration of the loop over the mappings in \<^verbatim>\<open>buildEndpointPatch\<close>. The property
  key \<^verbatim>\<open>entraDevice?.[entraProp]\<close> is the string of \<^verbatim>\<open>entraProp\<close>. The patch object is
  an association list: \<^verbatim>\<open>patch[key] = value\<close> overwrites the value of a key already
  present, in place, and appends a new key at the end.
\<close>

definition is_blank_string :: "jsval \<Rightarrow> bool" where
  "is_blank_string v = (case v of JStr s \<Rightarrow> trim s = [] | _ \<Rightarrow> False)"

definition patch_step :: "jsval \<Rightarrow> jsobject \<Rightarrow> jsval \<Rightarrow> jsobject" where
  "patch_step dev patch m =
     (let entraProp = js_get m ''entraProperty'';
          action1Attr = js_get m ''action1CustomAttribute''
      in if \<not> truthy entraProp \<or> \<not> truthy action1Attr then patch
         else let v = js_get dev (js_String entraProp)
              in if v = JNull \<or> v = JUndefined then patch
                 else if is_blank_string v then patch
                 else let key = toCustomKey action1Attr
                      in if key = [] then patch else AList.update key v patch)"

text \<open>\<open>None\<close> is the \<^verbatim>\<open>null\<close> returned for a patch without keys.\<close>

definition buildEndpointPatch :: "jsval \<Rightarrow> jsval list \<Rightarrow> jsobject option" where
  "buildEndpointPatch dev mappings =
     (let patch = foldl (patch_step dev) [] mappings
      in if length patch > 0 then Some patch else None)"

record patch_item =
  endpointId :: jsval
  endpointName :: jsval
  entraName :: jsval
  item_matchType :: match_type
  patch :: jsobject

record mapping_result =
  mr_matched :: "matched_pair list"
  mr_patches :: "patch_item list"
  mr_unmatchedEntra :: "jsval list"
  mr_ambiguous :: "ambiguous_entry list"

definition pair_patches :: "jsval list \<Rightarrow> matched_pair \<Rightarrow> patch_item list" where
  "pair_patches mappings pair =
     (case buildEndpointPatch (entraDevice pair) mappings of
        None \<Rightarrow> []
      | Some p \<Rightarrow>
          [\<lparr>endpointId = js_get (endpoint pair) ''id'',
            endpointName = getAction1EndpointName (endpoint pair),
            entraName = js_get (entraDevice pair) ''displayName'',
            item_matchType = matchType pair,
            patch = p\<rparr>])"

definition mapDevicesToPatches :: "jsval list \<Rightarrow> jsval list \<Rightarrow> jsval list \<Rightarrow> mapping_result" where
  "mapDevicesToPatches entraDevices action1Endpoints mappings =
     (let r = matchDevices entraDevices action1Endpoints
      in \<lparr>mr_matched = matched r,
          mr_patches = concat (map (pair_patches mappings) (matched r)),
          mr_unmatchedEntra = unmatchedEntra r,
          mr_ambiguous = ambiguous r\<rparr>)"

section \<open>config/helpers.js\<close>

record target =
  organizationIds :: "string list"
  target_mappings :: "jsval list"

record tenant =
  tenant_name :: string
  tenantId :: string
  clientId :: string
  targets :: "target list"

record config =
  tenants :: "tenant list"

record sync_job =
  tenant :: tenant
  organizationId :: string
  mappings :: "jsval list"

definition getSyncJobs :: "config \<Rightarrow> sync_job list" where
  "getSyncJobs cfg =
     concat (map (\<lambda>t.
       concat (map (\<lambda>tg.
         map (\<lambda>org. \<lparr>tenant = t, organizationId = org, mappings = target_mappings tg\<rparr>)
           (organizationIds tg))
         (targets t)))
       (tenants cfg))"

section \<open>config/config.js\<close>

text \<open>
  What \<^verbatim>\<open>loadConfig\<close> requires of every entry of a target's \<^verbatim>\<open>mappings\<close>: an object
  whose two fields pass \<^verbatim>\<open>isNonEmptyString\<close>
  (\<^verbatim>\<open>typeof v === 'string' && v.trim().length > 0\<close>).
\<close>

definition isNonEmptyString :: "jsval \<Rightarrow> bool" where
  "isNonEmptyString v = (case v of JStr s \<Rightarrow> length (trim s) > 0 | _ \<Rightarrow> False)"

definition valid_mapping :: "jsval \<Rightarrow> bool" where
  "valid_mapping m =
     (truthy m \<and> typeof_object m
      \<and> isNonEmptyString (js_get m ''entraProperty'')
      \<and> isNonEmptyString (js_get m ''action1CustomAttribute''))"

section \<open>sync/syncEngine.js\<close>

subsection \<open>Options\<close>

record sync_options =
  dryRun :: bool
  cacheEntraDevices :: bool
  maxPatchesPerJob :: int
  maxTotalPatches :: int
  stopOnJobError :: bool
  stopOnPatchError :: bool
  endpointPageSize :: int

text \<open>\<^verbatim>\<open>Number.isFinite(v) ? v : d\<close>: only a number is finite.\<close>

definition finite_or :: "jsval \<Rightarrow> int \<Rightarrow> int" where
  "finite_or v d = (case v of JNum n \<Rightarrow> n | _ \<Rightarrow> d)"

text \<open>
  The caller's options are an object (\<^verbatim>\<open>options = {}\<close> when the argument is left out);
  a property that is not set reads as \<^verbatim>\<open>undefined\<close>.
\<close>

definition normalizeOptions :: "jsobject \<Rightarrow> sync_options" where
  "normalizeOptions options =
     (let opt = js_get (JObj options)
      in \<lparr>dryRun = (if opt ''dryRun'' \<noteq> JUndefined then truthy (opt ''dryRun'') else True),
          cacheEntraDevices =
            (if opt ''cacheEntraDevices'' \<noteq> JUndefined then truthy (opt ''cacheEntraDevices'')
             else True),
          maxPatchesPerJob = finite_or (opt ''maxPatchesPerJob'') 50,
          maxTotalPatches = finite_or (opt ''maxTotalPatches'') 200,
          stopOnJobError = truthy (opt ''stopOnJobError''),
          stopOnPatchError = truthy (opt ''stopOnPatchError''),
          endpointPageSize = finite_or (opt ''endpointPageSize'') 50\<rparr>)"

subsection \<open>Collaborators, errors and the run state\<close>

text \<open>
  What a collaborator throws is an \<^verbatim>\<open>Error\<close> with a name and a message;
  \<open>error_text\<close> is \<^verbatim>\<open>err?.message ? err.message : String(err)\<close>, and the string of an
  \<^verbatim>\<open>Error\<close> whose message is empty is its name.
\<close>

datatype js_error = JsError (err_name: string) (err_message: string)

definition error_text :: "js_error \<Rightarrow> string" where
  "error_text err = (if err_message err \<noteq> [] then err_message err else err_name err)"

text \<open>
  The four network collaborators are parameters of the run. Each takes the state \<open>'w\<close>
  of the outside world and returns the new one with either the error it throws
  (\<open>Inl\<close>) or its result (\<open>Inr\<close>), so that two calls with the same arguments may
  differ. The platform configuration \<^verbatim>\<open>config.action1\<close> and the logger are fixed for a
  run and part of the collaborator; the logger has no effect on control flow and its
  calls are left out. A collaborator that never returns is outside the model.
\<close>

record 'w collaborators =
  getAction1AccessToken :: "'w \<Rightarrow> (js_error + string) \<times> 'w"
  listDevicesWithGroups :: "tenant \<Rightarrow> 'w \<Rightarrow> (js_error + jsval list) \<times> 'w"
  listManagedEndpoints :: "string \<Rightarrow> string \<Rightarrow> int \<Rightarrow> 'w \<Rightarrow> (js_error + jsval list) \<times> 'w"
  patchManagedEndpoint :: "string \<Rightarrow> string \<Rightarrow> jsval \<Rightarrow> jsobject \<Rightarrow> 'w \<Rightarrow> (js_error + unit) \<times> 'w"

text \<open>
  A trace of the collaborator calls, in order, kept beside the program's own state to
  state which calls a run makes. A patch call records whether it returned.
\<close>

datatype call =
    TokenCall
  | DevicesCall tenant
  | EndpointsCall string
  | PatchCall string jsval jsobject bool

fun is_patch_call :: "call \<Rightarrow> bool" where
  "is_patch_call (PatchCall org eid p ok) = True"
| "is_patch_call c = False"

fun is_patch_ok :: "call \<Rightarrow> bool" where
  "is_patch_ok (PatchCall org eid p ok) = ok"
| "is_patch_ok c = False"

record patch_error =
  pe_endpointId :: jsval
  pe_error :: string

record job_report =
  jr_tenantName :: string
  jr_organizationId :: string
  jr_entraDevices :: nat
  jr_action1Endpoints :: nat
  jr_matched :: nat
  jr_unmatchedEntra :: nat
  jr_ambiguous :: nat
  patchesPlanned :: nat
  patchesToProcess :: nat
  patchesApplied :: nat
  patchErrors :: "patch_error list"
  limitedBy :: "string option"
  jr_dryRun :: bool
  samplePatches :: "patch_item list"

record job_failure =
  jf_tenantName :: string
  jf_organizationId :: string
  jf_error :: string
  jf_dryRun :: bool

text \<open>
  The two object shapes pushed on \<^verbatim>\<open>jobResults\<close>: the full result at the end of the
  \<^verbatim>\<open>try\<close> block and the four-property result of the \<^verbatim>\<open>catch\<close> block.
\<close>

datatype job_result = JobDone job_report | JobFailed job_failure

record 'w run_state =
  jobResults :: "job_result list"
  entraDevicesCache :: "string \<rightharpoonup> jsval list"
  totalPlannedPatches :: nat
  totalAppliedPatches :: nat
  trace :: "call list"
  world :: 'w

record run_summary =
  sum_dryRun :: bool
  sum_jobs :: nat
  sum_totalPlannedPatches :: nat
  sum_totalAppliedPatches :: nat
  results :: "job_result list"

subsection \<open>Fetching the directory devices (step 1)\<close>

text \<open>\<^verbatim>\<open>s.replace(/\s+/g, '_')\<close>: every maximal run of white space becomes one underscore.\<close>

function collapse_spaces :: "string \<Rightarrow> string" where
  "collapse_spaces [] = []"
| "collapse_spaces (c # cs) =
     (if is_space c then CHR ''_'' # collapse_spaces (dropWhile is_space cs)
      else c # collapse_spaces cs)"
  by pat_completeness auto
termination
  by (relation "measure length") (auto simp: length_dropWhile_le less_Suc_eq_le)

text \<open>The characters kept by \<^verbatim>\<open>s.replace(/[^a-zA-Z0-9._-]/g, '')\<close>.\<close>

definition is_key_char :: "char \<Rightarrow> bool" where
  "is_key_char c =
     (let n = (of_char c :: nat)
      in (97 \<le> n \<and> n \<le> 122) \<or> (65 \<le> n \<and> n \<le> 90) \<or> (48 \<le> n \<and> n \<le> 57)
         \<or> c = CHR ''.'' \<or> c = CHR ''_'' \<or> c = CHR ''-'')"

text \<open>
  The cache key of a job. \<open>includeName\<close> is the environment toggle
  \<^verbatim>\<open>process.env.CACHE_KEY_INCLUDE_TENANT_NAME === '1'\<close>.
\<close>

definition tenantKey :: "bool \<Rightarrow> tenant \<Rightarrow> string" where
  "tenantKey includeName t =
     (let baseKey = tenantId t @ '':'' @ clientId t;
          tenantNameSafe = filter is_key_char (collapse_spaces (trim (tenant_name t)))
      in if includeName then baseKey @ '':'' @ tenantNameSafe else baseKey)"

definition call_listDevices ::
  "'w collaborators \<Rightarrow> tenant \<Rightarrow> 'w run_state \<Rightarrow> (js_error + jsval list) \<times> 'w run_state" where
  "call_listDevices C t st =
     (case listDevicesWithGroups C t (world st) of (r, w) \<Rightarrow>
        (r, st\<lparr>trace := trace st @ [DevicesCall t], world := w\<rparr>))"

definition fetchEntraDevices ::
  "'w collaborators \<Rightarrow> sync_options \<Rightarrow> bool \<Rightarrow> sync_job \<Rightarrow> 'w run_state
     \<Rightarrow> (js_error + jsval list) \<times> 'w run_state" where
  "fetchEntraDevices C opts includeName job st =
     (if \<not> cacheEntraDevices opts then call_listDevices C (tenant job) st
      else let key = tenantKey includeName (tenant job)
           in case entraDevicesCache st key of
                Some devs \<Rightarrow> (Inr devs, st)
              | None \<Rightarrow>
                  (case call_listDevices C (tenant job) st of
                     (Inl err, st1) \<Rightarrow> (Inl err, st1)
                   | (Inr devs, st1) \<Rightarrow>
                       (Inr devs,
                        st1\<lparr>entraDevicesCache := (entraDevicesCache st1)(key \<mapsto> devs)\<rparr>)))"

subsection \<open>Safety limits\<close>

text \<open>\<^verbatim>\<open>xs.slice(0, e)\<close> for an integer \<open>e\<close>: a negative end counts from the end of the list.\<close>

definition js_slice0 :: "'a list \<Rightarrow> int \<Rightarrow> 'a list" where
  "js_slice0 xs e =
     (if e < 0 then take (nat (max (int (length xs) + e) 0)) xs else take (nat e) xs)"

text \<open>
  The two truncations before the apply phase: the list to process and \<^verbatim>\<open>limitedBy\<close>
  (\<open>None\<close> for \<^verbatim>\<open>null\<close>), from the planned patches and the number applied so far.
\<close>

definition perJobLimit :: "sync_options \<Rightarrow> 'a list \<Rightarrow> 'a list \<times> string option" where
  "perJobLimit opts patches =
     (if int (length patches) > maxPatchesPerJob opts
      then (js_slice0 patches (maxPatchesPerJob opts),
            Some (''maxPatchesPerJob='' @ show_int (maxPatchesPerJob opts)))
      else (patches, None))"

definition globalLimit ::
  "sync_options \<Rightarrow> nat \<Rightarrow> 'a list \<times> string option \<Rightarrow> 'a list \<times> string option" where
  "globalLimit opts appliedSoFar pl =
     (case pl of (toProcess, limited) \<Rightarrow>
        if int appliedSoFar + int (length toProcess) > maxTotalPatches opts
        then (let allowed = max 0 (maxTotalPatches opts - int appliedSoFar)
              in (js_slice0 toProcess allowed,
                  Some (case limited of
                          Some l \<Rightarrow> l @ '', maxTotalPatches='' @ show_int (maxTotalPatches opts)
                        | None \<Rightarrow> ''maxTotalPatches='' @ show_int (maxTotalPatches opts))))
        else (toProcess, limited))"

definition safetyLimits :: "sync_options \<Rightarrow> nat \<Rightarrow> 'a list \<Rightarrow> 'a list \<times> string option" where
  "safetyLimits opts appliedSoFar patches =
     globalLimit opts appliedSoFar (perJobLimit opts patches)"

subsection \<open>Applying the patches (step 4)\<close>

record 'w apply_state =
  applied :: "jsval list"
  ap_patchErrors :: "patch_error list"
  ap_totalApplied :: nat
  ap_trace :: "call list"
  ap_world :: 'w

text \<open>
  The \<^verbatim>\<open>try\<close> block of one patch. A patch item is a record whose \<^verbatim>\<open>patch\<close> is an
  object, so of the validity test only \<^verbatim>\<open>!p.endpointId\<close> can fire. \<open>Inl\<close> is the
  error thrown, with the state at the throw; the early \<^verbatim>\<open>continue\<close> on an empty
  patch returns the state unchanged.
\<close>

definition tryPatch ::
  "'w collaborators \<Rightarrow> string \<Rightarrow> string \<Rightarrow> patch_item \<Rightarrow> 'w apply_state
     \<Rightarrow> (js_error + unit) \<times> 'w apply_state" where
  "tryPatch C token org p st =
     (if \<not> truthy (endpointId p)
      then (Inl (JsError ''Error'' ''Invalid patch item: missing endpointId or patch object''), st)
      else if length (patch p) = 0 then (Inr (), st)
      else case patchManagedEndpoint C token org (endpointId p) (patch p) (ap_world st) of
             (Inl err, w) \<Rightarrow>
               (Inl err,
                st\<lparr>ap_trace := ap_trace st @ [PatchCall org (endpointId p) (patch p) False],
                   ap_world := w\<rparr>)
           | (Inr u, w) \<Rightarrow>
               (Inr (),
                st\<lparr>applied := applied st @ [endpointId p],
                   ap_totalApplied := ap_totalApplied st + 1,
                   ap_trace := ap_trace st @ [PatchCall org (endpointId p) (patch p) True],
                   ap_world := w\<rparr>))"

text \<open>The loop over \<^verbatim>\<open>patchesToProcess\<close> with its \<^verbatim>\<open>catch\<close> block.\<close>

fun applyPatches ::
  "'w collaborators \<Rightarrow> sync_options \<Rightarrow> string \<Rightarrow> string \<Rightarrow> patch_item list \<Rightarrow> 'w apply_state
     \<Rightarrow> 'w apply_state" where
  "applyPatches C opts token org [] st = st"
| "applyPatches C opts token org (p # ps) st =
     (case tryPatch C token org p st of
        (Inr u, st1) \<Rightarrow> applyPatches C opts token org ps st1
      | (Inl err, st1) \<Rightarrow>
          (let st2 = st1\<lparr>ap_patchErrors := ap_patchErrors st1 @
                       [\<lparr>pe_endpointId = endpointId p, pe_error = error_text err\<rparr>]\<rparr>
           in if stopOnPatchError opts then st2 else applyPatches C opts token org ps st2))"

subsection \<open>One job, the job loop and the run\<close>

text \<open>
  Steps 3 and 4 of a job, after both listings have returned: map, count, limit, apply
  unless this is a dry run, and push the job result.
\<close>

definition finishJob ::
  "'w collaborators \<Rightarrow> sync_options \<Rightarrow> string \<Rightarrow> sync_job \<Rightarrow> jsval list \<Rightarrow> jsval list
     \<Rightarrow> 'w run_state \<Rightarrow> 'w run_state" where
  "finishJob C opts token job entraDevices endpoints st =
     (let mappingResult = mapDevicesToPatches entraDevices endpoints (mappings job);
          planned = length (mr_patches mappingResult);
          limited = safetyLimits opts (totalAppliedPatches st) (mr_patches mappingResult);
          ast0 = \<lparr>applied = [], ap_patchErrors = [],
                  ap_totalApplied = totalAppliedPatches st,
                  ap_trace = trace st, ap_world = world st\<rparr>;
          ast = (if \<not> dryRun opts
                 then applyPatches C opts token (organizationId job) (fst limited) ast0
                 else ast0);
          jobResult =
            \<lparr>jr_tenantName = tenant_name (tenant job),
             jr_organizationId = organizationId job,
             jr_entraDevices = length entraDevices,
             jr_action1Endpoints = length endpoints,
             jr_matched = length (mr_matched mappingResult),
             jr_unmatchedEntra = length (mr_unmatchedEntra mappingResult),
             jr_ambiguous = length (mr_ambiguous mappingResult),
             patchesPlanned = planned,
             patchesToProcess = length (fst limited),
             patchesApplied = (if dryRun opts then 0 else length (applied ast)),
             patchErrors = ap_patchErrors ast,
             limitedBy = snd limited,
             jr_dryRun = dryRun opts,
             samplePatches = take 3 (mr_patches mappingResult)\<rparr>
      in st\<lparr>jobResults := jobResults st @ [JobDone jobResult],
            totalPlannedPatches := totalPlannedPatches st + planned,
            totalAppliedPatches := ap_totalApplied ast,
            trace := ap_trace ast,
            world := ap_world ast\<rparr>)"

text \<open>The outer \<^verbatim>\<open>try\<close> block of a job: \<open>Inl\<close> is the error that reaches its \<^verbatim>\<open>catch\<close>.\<close>

definition tryJob ::
  "'w collaborators \<Rightarrow> sync_options \<Rightarrow> bool \<Rightarrow> string \<Rightarrow> sync_job \<Rightarrow> 'w run_state
     \<Rightarrow> (js_error + unit) \<times> 'w run_state" where
  "tryJob C opts includeName token job st =
     (case fetchEntraDevices C opts includeName job st of
        (Inl err, st1) \<Rightarrow> (Inl err, st1)
      | (Inr entraDevices, st1) \<Rightarrow>
          (case listManagedEndpoints C token (organizationId job) (endpointPageSize opts)
                  (world st1) of
             (Inl err, w) \<Rightarrow>
               (Inl err,
                st1\<lparr>trace := trace st1 @ [EndpointsCall (organizationId job)], world := w\<rparr>)
           | (Inr endpoints, w) \<Rightarrow>
               (Inr (),
                finishJob C opts token job entraDevices endpoints
                  (st1\<lparr>trace := trace st1 @ [EndpointsCall (organizationId job)],
                      world := w\<rparr>))))"

definition failedResult :: "sync_options \<Rightarrow> sync_job \<Rightarrow> js_error \<Rightarrow> job_result" where
  "failedResult opts job err =
     JobFailed \<lparr>jf_tenantName = tenant_name (tenant job),
                jf_organizationId = organizationId job,
                jf_error = error_text err,
                jf_dryRun = dryRun opts\<rparr>"

text \<open>The loop over the jobs; \<^verbatim>\<open>break\<close> on \<^verbatim>\<open>stopOnJobError\<close> leaves the rest unvisited.\<close>

fun runJobs ::
  "'w collaborators \<Rightarrow> sync_options \<Rightarrow> bool \<Rightarrow> string \<Rightarrow> sync_job list \<Rightarrow> 'w run_state
     \<Rightarrow> 'w run_state" where
  "runJobs C opts includeName token [] st = st"
| "runJobs C opts includeName token (job # jobs) st =
     (case tryJob C opts includeName token job st of
        (Inr u, st1) \<Rightarrow> runJobs C opts includeName token jobs st1
      | (Inl err, st1) \<Rightarrow>
          (let st2 = st1\<lparr>jobResults := jobResults st1 @ [failedResult opts job err]\<rparr>
           in if stopOnJobError opts then st2
              else runJobs C opts includeName token jobs st2))"

text \<open>
  \<^verbatim>\<open>runSync\<close>: \<open>Inl\<close> is the rejection of the returned promise, \<open>Inr\<close> the summary;
  the trace and the final world come with either.
\<close>

definition runSync ::
  "'w collaborators \<Rightarrow> bool \<Rightarrow> config \<Rightarrow> jsobject \<Rightarrow> 'w
     \<Rightarrow> (js_error + run_summary) \<times> call list \<times> 'w" where
  "runSync C includeName cfg options w =
     (let opts = normalizeOptions options;
          jobs = getSyncJobs cfg
      in case getAction1AccessToken C w of
           (Inl err, w1) \<Rightarrow> (Inl err, [TokenCall], w1)
         | (Inr action1Token, w1) \<Rightarrow>
             (let st = runJobs C opts includeName action1Token jobs
                         \<lparr>jobResults = [], entraDevicesCache = Map.empty,
                          totalPlannedPatches = 0, totalAppliedPatches = 0,
                          trace = [TokenCall], world = w1\<rparr>
              in (Inr \<lparr>sum_dryRun = dryRun opts,
                       sum_jobs = length jobs,
                       sum_totalPlannedPatches = totalPlannedPatches st,
                       sum_totalAppliedPatches = totalAppliedPatches st,
                       results = jobResults st\<rparr>,
                  trace st, world st)))"

section \<open>Notions used in the statements\<close>

subsection \<open>Matching\<close>

text \<open>
  The key \<^verbatim>\<open>fullKey\<close> that \<open>matchDevices\<close> computes for a device, and the key
  under which \<open>buildEndpointIndex\<close> files an endpoint.
\<close>

definition displayKey :: "jsval \<Rightarrow> string" where
  "displayKey dev = normalizeName (js_or (js_get dev ''displayName'') (JStr []))"

definition endpointKey :: "jsval \<Rightarrow> string" where
  "endpointKey ep = normalizeName (getAction1EndpointName ep)"

text \<open>The devices held by the three buckets, and how many entries the buckets have.\<close>

definition bucket_devices :: "match_result \<Rightarrow> jsval multiset" where
  "bucket_devices r = mset (map entraDevice (matched r)) + mset (unmatchedEntra r)
      + mset (map amb_entraDevice (ambiguous r))"

definition bucket_count :: "match_result \<Rightarrow> nat" where
  "bucket_count r = length (matched r) + length (unmatchedEntra r) + length (ambiguous r)"

text \<open>What one loop iteration pushes for a device, seen from empty buckets.\<close>

definition no_match :: match_result where
  "no_match = \<lparr>matched = [], unmatchedEntra = [], ambiguous = []\<rparr>"

definition classify :: "endpoint_index \<Rightarrow> endpoint_index \<Rightarrow> jsval \<Rightarrow> match_result" where
  "classify f s dev = match_step f s no_match dev"

subsection \<open>Patches\<close>

text \<open>A string without white space at either end.\<close>

definition trimmed :: "string \<Rightarrow> bool" where
  "trimmed s = (s = [] \<or> (\<not> is_space (hd s) \<and> \<not> is_space (last s)))"

text \<open>
  The entry a mapping writes for a device, \<open>None\<close> when one of the \<^verbatim>\<open>continue\<close>
  statements of \<open>patch_step\<close> skips it.
\<close>

definition writes :: "jsval \<Rightarrow> jsval \<Rightarrow> (string \<times> jsval) option" where
  "writes dev m =
     (let entraProp = js_get m ''entraProperty'';
          action1Attr = js_get m ''action1CustomAttribute'';
          v = js_get dev (js_String entraProp);
          key = toCustomKey action1Attr
      in if truthy entraProp \<and> truthy action1Attr \<and> v \<noteq> JNull \<and> v \<noteq> JUndefined
            \<and> \<not> is_blank_string v \<and> key \<noteq> []
         then Some (key, v) else None)"

definition usable_value :: "jsval \<Rightarrow> bool" where
  "usable_value v = (v \<noteq> JNull \<and> v \<noteq> JUndefined \<and> \<not> is_blank_string v)"

definition custom_key :: "string \<Rightarrow> bool" where
  "custom_key k = startsWith (toLowerCase k) ''custom:''"

subsection \<open>Runs\<close>

text \<open>
  What a job result contributes to the totals: a failed job's result has neither
  \<^verbatim>\<open>patchesPlanned\<close> nor \<^verbatim>\<open>patchesApplied\<close> nor \<^verbatim>\<open>patchErrors\<close> and counts as zero
  (the command line sums \<^verbatim>\<open>r.patchesPlanned || 0\<close>).
\<close>

fun result_planned :: "job_result \<Rightarrow> nat" where
  "result_planned (JobDone r) = patchesPlanned r"
| "result_planned (JobFailed f) = 0"

fun result_applied :: "job_result \<Rightarrow> nat" where
  "result_applied (JobDone r) = patchesApplied r"
| "result_applied (JobFailed f) = 0"

fun result_errors :: "job_result \<Rightarrow> nat" where
  "result_errors (JobDone r) = length (patchErrors r)"
| "result_errors (JobFailed f) = 0"

text \<open>Reading \<^verbatim>\<open>r.patchesApplied\<close> off a job result: \<open>None\<close> is \<^verbatim>\<open>undefined\<close>.\<close>

fun field_patchesApplied :: "job_result \<Rightarrow> nat option" where
  "field_patchesApplied (JobDone r) = Some (patchesApplied r)"
| "field_patchesApplied (JobFailed f) = None"

text \<open>The tenant name and organization a job result, and a job, carries.\<close>

fun result_ident :: "job_result \<Rightarrow> string \<times> string" where
  "result_ident (JobDone r) = (jr_tenantName r, jr_organizationId r)"
| "result_ident (JobFailed f) = (jf_tenantName f, jf_organizationId f)"

definition job_ident :: "sync_job \<Rightarrow> string \<times> string" where
  "job_ident job = (tenant_name (tenant job), organizationId job)"

text \<open>
  The calls of \<^verbatim>\<open>patchManagedEndpoint\<close> in a trace, how many of them returned and how
  many threw.
\<close>

definition patch_calls :: "call list \<Rightarrow> call list" where
  "patch_calls tr = filter is_patch_call tr"

definition patches_ok :: "call list \<Rightarrow> nat" where
  "patches_ok tr = length (filter is_patch_ok tr)"

definition patches_failed :: "call list \<Rightarrow> nat" where
  "patches_failed tr = length (filter (\<lambda>c. \<not> is_patch_ok c) (patch_calls tr))"

text \<open>The planned patches of a job, from the two listings.\<close>

definition job_patches :: "sync_job \<Rightarrow> jsval list \<Rightarrow> jsval list \<Rightarrow> patch_item list" where
  "job_patches job devs eps = mr_patches (mapDevicesToPatches devs eps (mappings job))"

text \<open>
  The state in which \<open>runSync\<close> enters the job loop, and the summary it builds from
  the state in which it leaves the loop.
\<close>

definition start_state :: "'w \<Rightarrow> 'w run_state" where
  "start_state w = \<lparr>jobResults = [], entraDevicesCache = Map.empty, totalPlannedPatches = 0,
      totalAppliedPatches = 0, trace = [TokenCall], world = w\<rparr>"

definition summary_of :: "sync_options \<Rightarrow> sync_job list \<Rightarrow> 'w run_state \<Rightarrow> run_summary" where
  "summary_of opts jobs st = \<lparr>sum_dryRun = dryRun opts, sum_jobs = length jobs,
      sum_totalPlannedPatches = totalPlannedPatches st,
      sum_totalAppliedPatches = totalAppliedPatches st, results = jobResults st\<rparr>"

text \<open>
  The global limit read off the job results in order, \<open>n\<close> being the number of patches
  applied by the jobs before: a job processes no more patches than the limit leaves
  (none when the limit is used up or negative), and applies no more than it processes.
\<close>

fun cap_ok :: "sync_options \<Rightarrow> nat \<Rightarrow> job_result list \<Rightarrow> bool" where
  "cap_ok opts n [] = True"
| "cap_ok opts n (JobDone r # rs) =
     (int (patchesToProcess r) \<le> max 0 (maxTotalPatches opts - int n)
      \<and> patchesApplied r \<le> patchesToProcess r
      \<and> cap_ok opts (n + patchesApplied r) rs)"
| "cap_ok opts n (JobFailed f # rs) = cap_ok opts n rs"

text \<open>
  The same reading with the limit as it stands, \<open>maxTotalPatches - n\<close>, for a limit
  that is not negative.
\<close>

fun limit_ok :: "sync_options \<Rightarrow> nat \<Rightarrow> job_result list \<Rightarrow> bool" where
  "limit_ok opts n [] = True"
| "limit_ok opts n (JobDone r # rs) =
     (int (patchesToProcess r) \<le> maxTotalPatches opts - int n
      \<and> patchesApplied r \<le> patchesToProcess r
      \<and> limit_ok opts (n + patchesApplied r) rs)"
| "limit_ok opts n (JobFailed f # rs) = limit_ok opts n rs"

text \<open>
  Two states that agree on the results, the counters and the patch calls made so far
  (a listing changes the cache, the trace and the world only).
\<close>

definition same_core :: "'w run_state \<Rightarrow> 'w run_state \<Rightarrow> bool" where
  "same_core st st1 =
     (jobResults st1 = jobResults st \<and> totalPlannedPatches st1 = totalPlannedPatches st
      \<and> totalAppliedPatches st1 = totalAppliedPatches st
      \<and> patch_calls (trace st1) = patch_calls (trace st)
      \<and> patches_ok (trace st1) = patches_ok (trace st))"

definition listed :: "'w run_state \<Rightarrow> string \<Rightarrow> 'w \<Rightarrow> 'w run_state" where
  "listed st org w = st\<lparr>trace := trace st @ [EndpointsCall org], world := w\<rparr>"

text \<open>The invariants of the job loop.\<close>

definition sums_inv :: "'w run_state \<Rightarrow> bool" where
  "sums_inv st =
     (totalPlannedPatches st = sum_list (map result_planned (jobResults st))
      \<and> totalAppliedPatches st = sum_list (map result_applied (jobResults st)))"

definition cap_inv :: "sync_options \<Rightarrow> 'w run_state \<Rightarrow> bool" where
  "cap_inv opts st =
     (sums_inv st \<and> totalAppliedPatches st = patches_ok (trace st)
      \<and> int (totalAppliedPatches st) \<le> max 0 (maxTotalPatches opts)
      \<and> cap_ok opts 0 (jobResults st))"

definition dry_inv :: "'w run_state \<Rightarrow> bool" where
  "dry_inv st = (patch_calls (trace st) = [] \<and> totalAppliedPatches st = 0
     \<and> (\<forall>jr. JobDone jr \<in> set (jobResults st) \<longrightarrow> patchesApplied jr = 0))"

definition errors_inv :: "'w run_state \<Rightarrow> bool" where
  "errors_inv st = (patches_failed (trace st) \<le> sum_list (map result_errors (jobResults st)))"

text \<open>What the statements about concrete runs read off the outcome of \<open>runSync\<close>.\<close>

fun result_limits :: "job_result \<Rightarrow> (nat \<times> nat \<times> nat \<times> string option) option" where
  "result_limits (JobDone r) =
     Some (patchesPlanned r, patchesToProcess r, patchesApplied r, limitedBy r)"
| "result_limits (JobFailed f) = None"

definition run_limits ::
  "(js_error + run_summary) \<times> call list \<times> 'w
     \<Rightarrow> js_error + (nat \<times> nat \<times> nat \<times> string option) option list" where
  "run_limits out = map_sum id (\<lambda>s. map result_limits (results s)) (fst out)"

definition run_totals :: "(js_error + run_summary) \<times> call list \<times> 'w \<Rightarrow> js_error + nat \<times> nat" where
  "run_totals out =
     map_sum id (\<lambda>s. (sum_totalPlannedPatches s, sum_totalAppliedPatches s)) (fst out)"

definition run_sums ::
  "(js_error + run_summary) \<times> call list \<times> 'w \<Rightarrow> js_error + nat list \<times> nat list" where
  "run_sums out =
     map_sum id (\<lambda>s. (map result_planned (results s), map result_applied (results s))) (fst out)"

definition run_fields ::
  "(js_error + run_summary) \<times> call list \<times> 'w \<Rightarrow> js_error + nat option list" where
  "run_fields out = map_sum id (\<lambda>s. map field_patchesApplied (results s)) (fst out)"

definition run_trace :: "(js_error + run_summary) \<times> call list \<times> 'w \<Rightarrow> call list" where
  "run_trace out = fst (snd out)"

section \<open>Sample inputs\<close>

text \<open>Devices as the directory reader returns them, and endpoints of the platform.\<close>

definition dev_blank :: jsval where
  "dev_blank = JObj [(''displayName'', JStr ''  ''), (''isManaged'', JBool False)]"

definition dev_pc1 :: jsval where
  "dev_pc1 = JObj [(''displayName'', JStr ''PC1.corp.local''), (''isManaged'', JBool False),
      (''memberOf'', JStr ''''), (''extensionAttributes'', JNull)]"

definition dev_srv :: jsval where
  "dev_srv = JObj [(''displayName'', JStr ''Srv.corp.local''), (''isManaged'', JBool True)]"

definition dev_lap :: jsval where
  "dev_lap = JObj [(''displayName'', JStr ''LAP3''), (''isManaged'', JBool True)]"

definition dev_attrs :: jsval where
  "dev_attrs = JObj [(''displayName'', JStr ''PC7''), (''riskScore'', JNum 0),
      (''isCompliant'', JBool False), (''enrollmentType'', JStr '' ''),
      (''deviceOwnership'', JNull), (''memberOf'', JStr ''Sales, HQ'')]"

definition ep_pc1 :: jsval where
  "ep_pc1 = JObj [(''id'', JStr ''e1''), (''name'', JStr ''pc1'')]"

definition ep_srv_a :: jsval where
  "ep_srv_a = JObj [(''id'', JStr ''e2''), (''name'', JStr ''SRV.corp.local'')]"

definition ep_srv_b :: jsval where
  "ep_srv_b = JObj [(''id'', JStr ''e3''), (''device_name'', JStr '' srv.corp.local'')]"

definition ep_srv_short :: jsval where
  "ep_srv_short = JObj [(''id'', JStr ''e4''), (''name'', JStr ''srv'')]"

definition ep_noname :: jsval where
  "ep_noname = JObj [(''id'', JStr ''e5''), (''name'', JStr '''')]"

definition ep_lap :: jsval where
  "ep_lap = JObj [(''id'', JStr ''e6''), (''name'', JStr ''lap3'')]"

definition ex_devices :: "jsval list" where
  "ex_devices = [dev_pc1, dev_srv, dev_lap]"

definition ex_endpoints :: "jsval list" where
  "ex_endpoints = [ep_pc1, ep_srv_a, ep_lap]"

text \<open>Seventy directory devices of one name, all matching the one endpoint \<open>ep_lap\<close>.\<close>

definition fleet_devices :: "jsval list" where
  "fleet_devices = replicate 70 dev_lap"

text \<open>Property mappings, and the patch item the mapping of the sample configuration gives.\<close>

definition mk_mapping :: "string \<Rightarrow> string \<Rightarrow> jsval" where
  "mk_mapping entraProp attr =
     JObj [(''entraProperty'', JStr entraProp), (''action1CustomAttribute'', JStr attr)]"

definition ex_mappings :: "jsval list" where
  "ex_mappings = [mk_mapping ''riskScore'' ''Risk'', mk_mapping ''enrollmentType'' ''Enrollment'',
      mk_mapping ''isCompliant'' '' CUSTOM:Compliant '', mk_mapping ''deviceOwnership'' ''Owner'',
      mk_mapping ''missing'' ''Missing'']"

definition ex_item :: patch_item where
  "ex_item = \<lparr>endpointId = JStr ''e6'', endpointName = JStr ''lap3'', entraName = JStr ''LAP3'',
     item_matchType = Full, patch = [(''custom:Managed'', JBool True)]\<rparr>"

text \<open>A configuration of one tenant with two organizations, hence two jobs.\<close>

definition ex_tenant :: tenant where
  "ex_tenant = \<lparr>tenant_name = ''Contoso'', tenantId = ''t-1'', clientId = ''app-1'',
      targets = [\<lparr>organizationIds = [''org-a'', ''org-b''],
                  target_mappings = [mk_mapping ''isManaged'' ''Managed'']\<rparr>]\<rparr>"

definition ex_config :: config where
  "ex_config = \<lparr>tenants = [ex_tenant]\<rparr>"

definition ex_job :: "string \<Rightarrow> sync_job" where
  "ex_job org = \<lparr>tenant = ex_tenant, organizationId = org,
     mappings = [mk_mapping ''isManaged'' ''Managed'']\<rparr>"

definition apply_options :: jsobject where
  "apply_options = [(''dryRun'', JBool False), (''maxPatchesPerJob'', JNum 2),
     (''maxTotalPatches'', JNum 3)]"

text \<open>
  Collaborators over a world that counts their calls: a platform where every call
  returns, and three where the endpoint listing of the first organization, the
  directory listing, or the token acquisition throws.
\<close>

definition ex_platform :: "nat collaborators" where
  "ex_platform =
     \<lparr>getAction1AccessToken = (\<lambda>w. (Inr ''token'', Suc w)),
      listDevicesWithGroups = (\<lambda>t w. (Inr ex_devices, Suc w)),
      listManagedEndpoints = (\<lambda>tok org n w. (Inr ex_endpoints, Suc w)),
      patchManagedEndpoint = (\<lambda>tok org eid p w. (Inr (), Suc w))\<rparr>"

definition ex_listing_down :: "nat collaborators" where
  "ex_listing_down = ex_platform\<lparr>listManagedEndpoints :=
     (\<lambda>tok org n w. (if org = ''org-a'' then Inl (JsError ''Error'' ''HTTP 503'')
                     else Inr ex_endpoints, Suc w))\<rparr>"



definition fleet_platform :: "nat collaborators" where
  "fleet_platform = ex_platform\<lparr>listDevicesWithGroups := (\<lambda>t w. (Inr fleet_devices, Suc w)),
     listManagedEndpoints := (\<lambda>tok org n w. (Inr [ep_lap], Suc w))\<rparr>"

section \<open>Auxiliary facts\<close>

subsection \<open>The matching loop\<close>

lemma match_step_cases:
  "(match_step f s acc dev = acc\<lparr>unmatchedEntra := unmatchedEntra acc @ [dev]\<rparr>)
   \<or> (\<exists>cs r. match_step f s acc dev = acc\<lparr>ambiguous := ambiguous acc @
          [\<lparr>amb_entraDevice = dev, candidates = cs, reason = r\<rparr>]\<rparr>)
   \<or> (\<exists>c t. match_step f s acc dev = acc\<lparr>matched := matched acc @
          [\<lparr>entraDevice = dev, endpoint = c, matchType = t\<rparr>]\<rparr>)"
  by (auto simp: match_step_def Let_def split: option.splits list.splits)

lemma match_step_count: "bucket_count (match_step f s acc dev) = Suc (bucket_count acc)"
  using match_step_cases[of f s acc dev] by (auto simp: bucket_count_def)

lemma match_step_devices:
  "bucket_devices (match_step f s acc dev) = bucket_devices acc + {#dev#}"
  using match_step_cases[of f s acc dev] by (auto simp: bucket_devices_def)

lemma foldl_match_step_count:
  "bucket_count (foldl (match_step f s) acc devs) = bucket_count acc + length devs"
  by (induction devs arbitrary: acc) (simp_all add: match_step_count)

lemma foldl_match_step_devices:
  "bucket_devices (foldl (match_step f s) acc devs) = bucket_devices acc + mset devs"
  by (induction devs arbitrary: acc) (simp_all add: match_step_devices)

lemma match_step_classify:
  "match_step f s acc dev =
     acc\<lparr>matched := matched acc @ matched (classify f s dev),
         unmatchedEntra := unmatchedEntra acc @ unmatchedEntra (classify f s dev),
         ambiguous := ambiguous acc @ ambiguous (classify f s dev)\<rparr>"
  by (simp add: classify_def no_match_def match_step_def Let_def split: option.splits list.splits)

lemma foldl_match_step_classify:
  "foldl (match_step f s) acc devs =
     acc\<lparr>matched := matched acc @ concat (map (\<lambda>d. matched (classify f s d)) devs),
         unmatchedEntra := unmatchedEntra acc @ concat (map (\<lambda>d. unmatchedEntra (classify f s d)) devs),
         ambiguous := ambiguous acc @ concat (map (\<lambda>d. ambiguous (classify f s d)) devs)\<rparr>"
proof (induction devs arbitrary: acc)
  case Nil
  show ?case by simp
next
  case (Cons d devs)
  show ?case
    by (simp add: Cons.IH) (simp add: match_step_classify[of f s acc d])
qed

lemma classify_matched_dev: "p \<in> set (matched (classify f s d)) \<Longrightarrow> entraDevice p = d"
  by (auto simp: classify_def no_match_def match_step_def Let_def split: option.splits list.splits if_splits)

lemma classify_ambiguous_dev: "a \<in> set (ambiguous (classify f s d)) \<Longrightarrow> amb_entraDevice a = d"
  by (auto simp: classify_def no_match_def match_step_def Let_def split: option.splits list.splits if_splits)

lemma classify_unmatched_dev: "u \<in> set (unmatchedEntra (classify f s d)) \<Longrightarrow> u = d"
  by (auto simp: classify_def no_match_def match_step_def Let_def split: option.splits list.splits if_splits)

lemma classify_empty_name:
  "displayKey dev = [] \<Longrightarrow> classify f s dev = no_match\<lparr>unmatchedEntra := [dev]\<rparr>"
  by (simp add: classify_def displayKey_def match_step_def no_match_def)

lemma matchDevices_classify:
  "matchDevices devs eps =
     \<lparr>matched = concat (map (\<lambda>d. matched (classify (buildEndpointIndex eps) (buildEndpointShortIndex eps) d)) devs),
      unmatchedEntra = concat (map (\<lambda>d. unmatchedEntra (classify (buildEndpointIndex eps) (buildEndpointShortIndex eps) d)) devs),
      ambiguous = concat (map (\<lambda>d. ambiguous (classify (buildEndpointIndex eps) (buildEndpointShortIndex eps) d)) devs)\<rparr>"
  by (simp add: matchDevices_def Let_def foldl_match_step_classify)

lemma foldl_index_push:
  "foldl (index_push keyOf) idx eps key =
     (let new = filter (\<lambda>ep. keyOf (getAction1EndpointName ep) = key) eps
      in if key = [] \<or> new = [] then idx key
         else Some ((case idx key of None \<Rightarrow> [] | Some l \<Rightarrow> l) @ new))"
proof (induction eps arbitrary: idx)
  case Nil
  show ?case by simp
next
  case (Cons e eps)
  show ?case
    by (simp add: Cons.IH) (auto simp: index_push_def Let_def split: option.splits)
qed

lemma buildEndpointIndex_lookup:
  "buildEndpointIndex eps key =
     (let new = filter (\<lambda>ep. normalizeName (getAction1EndpointName ep) = key) eps
      in if key = [] \<or> new = [] then None else Some new)"
  by (simp add: buildEndpointIndex_def foldl_index_push Let_def)

lemma classify_duplicate_full:
  assumes "displayKey dev \<noteq> []" and "f (displayKey dev) = Some cs" and "length cs \<ge> 2"
  shows "classify f s dev = no_match\<lparr>ambiguous := [\<lparr>amb_entraDevice = dev, candidates = cs, reason = Duplicate_full\<rparr>]\<rparr>"
  using assms by (cases cs) (auto simp: classify_def displayKey_def match_step_def no_match_def Let_def)

lemma displayKey_blank:
  "normalizeName (js_get dev ''displayName'') = [] \<Longrightarrow> displayKey dev = []"
  by (cases "truthy (js_get dev ''displayName'')")
    (simp_all add: displayKey_def js_or_def normalizeName_def toLowerCase_def trim_def)

subsection \<open>Trimming, custom keys and the patch loop\<close>

lemma trimmed_trim: "trimmed (trim s)"
proof (cases "trim s = []")
  case True
  then show ?thesis by (simp add: trimmed_def)
next
  case False
  let ?a = "dropWhile is_space s"
  let ?b = "dropWhile is_space (rev ?a)"
  from False have b: "?b \<noteq> []" by (simp add: trim_def)
  then have "rev ?a \<noteq> []" by (metis dropWhile.simps(1))
  then have a: "?a \<noteq> []" by simp
  have last_ok: "\<not> is_space (last (trim s))"
    using b by (simp add: trim_def last_rev hd_dropWhile)
  have "?a = rev ?b @ rev (takeWhile is_space (rev ?a))"
    by (metis rev_append rev_rev_ident takeWhile_dropWhile_id)
  then have "hd ?a = hd (rev ?b)" using b by (metis hd_append2 rev_is_Nil_conv)
  moreover have "\<not> is_space (hd ?a)" using a by (simp add: hd_dropWhile)
  ultimately have "\<not> is_space (hd (trim s))" by (simp add: trim_def)
  with last_ok show ?thesis by (simp add: trimmed_def)
qed

lemma trim_trimmed: "trimmed s \<Longrightarrow> trim s = s"
proof (cases s)
  case Nil
  then show ?thesis by (simp add: trim_def)
next
  case (Cons c cs)
  assume "trimmed s"
  with Cons have h: "\<not> is_space (hd s)" and l: "\<not> is_space (last s)" by (auto simp: trimmed_def)
  from Cons h have 1: "dropWhile is_space s = s" by simp
  from Cons have sne: "s \<noteq> []" and "rev s \<noteq> []" by simp_all
  moreover from sne l have "\<not> is_space (hd (rev s))" by (metis hd_rev)
  ultimately have "dropWhile is_space (rev s) = rev s" by (cases "rev s") auto
  with 1 show ?thesis by (simp add: trim_def)
qed

lemma lower_custom: "toLowerCase (''custom:'' @ s) = ''custom:'' @ toLowerCase s"
  by (simp add: toLowerCase_def lower_char_def)

lemma not_space_c: "\<not> is_space CHR ''c''"
  by (simp add: is_space_def)

lemma trimmed_custom: "trimmed r \<Longrightarrow> r \<noteq> [] \<Longrightarrow> trimmed (''custom:'' @ r)"
  by (simp add: trimmed_def not_space_c)

lemma toCustomKey_cases:
  "toCustomKey a = [] \<or>
   (toCustomKey a \<noteq> [] \<and> trimmed (toCustomKey a) \<and> startsWith (toLowerCase (toCustomKey a)) ''custom:'')"
proof -
  let ?raw = "trim (js_String (js_or a (JStr [])))"
  have t: "trimmed ?raw" by (rule trimmed_trim)
  show ?thesis
  proof (cases "?raw = []")
    case True
    then show ?thesis by (simp add: toCustomKey_def)
  next
    case False
    show ?thesis
    proof (cases "startsWith (toLowerCase ?raw) ''custom:''")
      case True
      with False t show ?thesis by (simp add: toCustomKey_def Let_def)
    next
      case nsw: False
      have "startsWith (toLowerCase (''custom:'' @ ?raw)) ''custom:''"
        unfolding lower_custom by (simp add: startsWith_def)
      with False nsw trimmed_custom[OF t False] show ?thesis
        by (simp add: toCustomKey_def Let_def)
    qed
  qed
qed

lemma toCustomKey_fixed:
  assumes "trimmed k" and "k = [] \<or> startsWith (toLowerCase k) ''custom:''"
  shows "toCustomKey (JStr k) = k"
proof (cases "k = []")
  case True
  then show ?thesis by (simp add: toCustomKey_def js_or_def trim_def)
next
  case False
  with assms have "startsWith (toLowerCase k) ''custom:''" by simp
  with False assms(1) show ?thesis
    by (simp add: toCustomKey_def js_or_def trim_trimmed Let_def)
qed

lemma toCustomKey_idem: "toCustomKey (JStr (toCustomKey a)) = toCustomKey a"
  using toCustomKey_cases[of a] by (auto intro: toCustomKey_fixed simp: trimmed_def)

lemma toCustomKey_prefixed:
  "startsWith (toLowerCase (trim s)) ''custom:'' \<Longrightarrow> toCustomKey (JStr s) = trim s"
proof -
  assume sw: "startsWith (toLowerCase (trim s)) ''custom:''"
  then have ne: "trim s \<noteq> []" by (auto simp: startsWith_def toLowerCase_def)
  then have "s \<noteq> []" by (auto simp: trim_def)
  with sw ne show ?thesis by (simp add: toCustomKey_def js_or_def Let_def)
qed

lemma patch_step_writes:
  "patch_step dev acc m =
     (case writes dev m of None \<Rightarrow> acc | Some (k, v) \<Rightarrow> AList.update k v acc)"
  by (simp add: patch_step_def writes_def Let_def)

lemma toCustomKey_truthy: "toCustomKey a \<noteq> [] \<Longrightarrow> truthy a"
  by (cases "truthy a") (auto simp: toCustomKey_def js_or_def trim_def)

lemma set_update_cases: "x \<in> set (AList.update k v al) \<Longrightarrow> x = (k, v) \<or> x \<in> set al"
  by (induction al) (auto split: if_splits)

lemma foldl_invariant:
  "P a \<Longrightarrow> (\<And>b x. P b \<Longrightarrow> x \<in> set xs \<Longrightarrow> P (f b x)) \<Longrightarrow> P (foldl f a xs)"
  by (induction xs arbitrary: a) simp_all

lemma writes_entry:
  "writes dev m = Some (k, v) \<Longrightarrow> usable_value v \<and> custom_key k"
  using toCustomKey_cases[of "js_get m ''action1CustomAttribute''"]
  by (auto simp: writes_def Let_def usable_value_def custom_key_def split: if_splits)

lemma patch_entries:
  assumes "\<forall>(k, v) \<in> set init. usable_value v \<and> custom_key k"
  shows "\<forall>(k, v) \<in> set (foldl (patch_step dev) init ms). usable_value v \<and> custom_key k"
proof (rule foldl_invariant[where P = "\<lambda>p. \<forall>(k, v) \<in> set p. usable_value v \<and> custom_key k"])
  show "\<forall>(k, v) \<in> set init. usable_value v \<and> custom_key k" by (rule assms)
next
  fix b m
  assume b: "\<forall>(k, v) \<in> set b. usable_value v \<and> custom_key k"
  show "\<forall>(k, v) \<in> set (patch_step dev b m). usable_value v \<and> custom_key k"
  proof (cases "writes dev m")
    case None
    with b show ?thesis by (simp add: patch_step_writes)
  next
    case (Some kv)
    obtain k v where kv: "kv = (k, v)" by (cases kv)
    with Some writes_entry[of dev m k v] b show ?thesis
      by (auto simp: patch_step_writes dest: set_update_cases)
  qed
qed

lemma patch_step_keys: "fst ` set acc \<subseteq> fst ` set (patch_step dev acc m)"
  by (auto simp: patch_step_writes dom_update split: option.splits)

lemma foldl_patch_step_keys: "fst ` set acc \<subseteq> fst ` set (foldl (patch_step dev) acc ms)"
proof (induction ms arbitrary: acc)
  case Nil
  show ?case by simp
next
  case (Cons m ms)
  have "fst ` set acc \<subseteq> fst ` set (patch_step dev acc m)" by (rule patch_step_keys)
  also have "\<dots> \<subseteq> fst ` set (foldl (patch_step dev) (patch_step dev acc m) ms)" by (rule Cons.IH)
  finally show ?case by simp
qed

lemma foldl_patch_step_keeps:
  assumes "\<forall>m \<in> set ms. \<forall>v. writes dev m \<noteq> Some (k, v)"
  shows "map_of (foldl (patch_step dev) acc ms) k = map_of acc k"
  using assms
proof (induction ms arbitrary: acc)
  case Nil
  show ?case by simp
next
  case (Cons m ms)
  have "map_of (patch_step dev acc m) k = map_of acc k"
  proof (cases "writes dev m")
    case None
    then show ?thesis by (simp add: patch_step_writes)
  next
    case (Some kv)
    obtain k' v' where kv: "kv = (k', v')" by (cases kv)
    with Some Cons.prems have "k' \<noteq> k" by auto
    with Some kv show ?thesis by (simp add: patch_step_writes update_conv')
  qed
  with Cons show ?case by simp
qed

lemma written_key_present:
  assumes "m \<in> set ms" and "writes dev m = Some (k, v)"
  shows "k \<in> fst ` set (foldl (patch_step dev) acc ms)"
  using assms
proof (induction ms arbitrary: acc)
  case Nil
  then show ?case by simp
next
  case (Cons a ms)
  show ?case
  proof (cases "m \<in> set ms")
    case True
    with Cons show ?thesis by simp
  next
    case False
    with Cons.prems have "a = m" by simp
    with Cons.prems have "k \<in> fst ` set (patch_step dev acc a)"
      by (simp add: patch_step_writes dom_update)
    with foldl_patch_step_keys[of "patch_step dev acc a" dev ms] show ?thesis by auto
  qed
qed

lemma written_last_value:
  assumes "writes dev m = Some (k, v)" and "\<forall>m' \<in> set after. \<forall>v'. writes dev m' \<noteq> Some (k, v')"
  shows "map_of (foldl (patch_step dev) acc (before @ [m] @ after)) k = Some v"
  using assms by (simp add: foldl_patch_step_keeps patch_step_writes update_conv')

subsection \<open>The apply loop, the limits and the job loop\<close>

lemma tryPatch_effect:
  assumes "tryPatch C token org p st = (r, st1)"
  shows "ap_patchErrors st1 = ap_patchErrors st
       \<and> ((applied st1 = applied st \<and> ap_totalApplied st1 = ap_totalApplied st
            \<and> patches_ok (ap_trace st1) = patches_ok (ap_trace st))
          \<or> (r = Inr () \<and> applied st1 = applied st @ [endpointId p]
              \<and> ap_totalApplied st1 = Suc (ap_totalApplied st)
              \<and> patches_ok (ap_trace st1) = Suc (patches_ok (ap_trace st))))"
  using assms
  by (auto simp: tryPatch_def patches_ok_def split: if_splits prod.splits sum.splits)

lemma applyPatches_effect:
  "ap_totalApplied (applyPatches C opts token org ps st) + length (applied st)
     = ap_totalApplied st + length (applied (applyPatches C opts token org ps st))
   \<and> patches_ok (ap_trace (applyPatches C opts token org ps st)) + length (applied st)
     = patches_ok (ap_trace st) + length (applied (applyPatches C opts token org ps st))
   \<and> length (applied st) \<le> length (applied (applyPatches C opts token org ps st))
   \<and> length (applied (applyPatches C opts token org ps st)) \<le> length (applied st) + length ps"
proof (induction ps arbitrary: st)
  case Nil
  show ?case by simp
next
  case (Cons p ps)
  obtain r st1 where t: "tryPatch C token org p st = (r, st1)" by (cases "tryPatch C token org p st")
  note e = tryPatch_effect[OF t]
  show ?case
  proof (cases r)
    case (Inr u)
    with t have "applyPatches C opts token org (p # ps) st = applyPatches C opts token org ps st1"
      by simp
    with Cons.IH[of st1] e show ?thesis by auto
  next
    case (Inl err)
    let ?st2 = "st1\<lparr>ap_patchErrors := ap_patchErrors st1 @
                       [\<lparr>pe_endpointId = endpointId p, pe_error = error_text err\<rparr>]\<rparr>"
    from Inl e have same: "applied st1 = applied st" "ap_totalApplied st1 = ap_totalApplied st"
        "patches_ok (ap_trace st1) = patches_ok (ap_trace st)" by auto
    show ?thesis
    proof (cases "stopOnPatchError opts")
      case True
      with t Inl have "applyPatches C opts token org (p # ps) st = ?st2" by simp
      with same show ?thesis by simp
    next
      case False
      with t Inl have "applyPatches C opts token org (p # ps) st = applyPatches C opts token org ps ?st2"
        by simp
      with Cons.IH[of ?st2] same show ?thesis by simp
    qed
  qed
qed

lemma globalLimit_length:
  "int (length (fst (globalLimit opts n pl))) \<le> max 0 (maxTotalPatches opts - int n)"
  by (cases pl) (auto simp: globalLimit_def Let_def js_slice0_def)

lemma safetyLimits_length:
  "int (length (fst (safetyLimits opts n ps))) \<le> max 0 (maxTotalPatches opts - int n)"
  by (simp add: safetyLimits_def globalLimit_length)

lemma same_core_refl: "same_core st st"
  by (simp add: same_core_def)

lemma call_listDevices_core: "call_listDevices C t st = (r, st1) \<Longrightarrow> same_core st st1"
  by (auto simp: call_listDevices_def same_core_def patch_calls_def patches_ok_def split: prod.splits)

lemma fetchEntraDevices_core:
  assumes "fetchEntraDevices C opts inc job st = (r, st1)"
  shows "same_core st st1"
proof (cases "cacheEntraDevices opts")
  case False
  with assms show ?thesis by (simp add: fetchEntraDevices_def call_listDevices_core)
next
  case True
  show ?thesis
  proof (cases "entraDevicesCache st (tenantKey inc (tenant job))")
    case (Some devs)
    with True assms show ?thesis by (auto simp: fetchEntraDevices_def Let_def same_core_refl)
  next
    case None
    obtain r0 st0 where c: "call_listDevices C (tenant job) st = (r0, st0)"
      by (cases "call_listDevices C (tenant job) st")
    from call_listDevices_core[OF c] have "same_core st st0" .
    with True None assms c show ?thesis
      by (cases r0) (auto simp: fetchEntraDevices_def Let_def same_core_def)
  qed
qed

lemma listed_core: "same_core st (listed st org w)"
  by (simp add: listed_def same_core_def patch_calls_def patches_ok_def)

lemma same_core_trans: "same_core a b \<Longrightarrow> same_core b c \<Longrightarrow> same_core a c"
  by (simp add: same_core_def)

lemma tryJob_cases:
  assumes "tryJob C opts inc token job st = (r, st1)"
  shows "(\<exists>err. r = Inl err \<and> same_core st st1)
       \<or> (\<exists>devs eps st0. r = Inr () \<and> same_core st st0
            \<and> st1 = finishJob C opts token job devs eps st0)"
proof -
  obtain r0 s0 where f: "fetchEntraDevices C opts inc job st = (r0, s0)"
    by (cases "fetchEntraDevices C opts inc job st")
  note c0 = fetchEntraDevices_core[OF f]
  show ?thesis
  proof (cases r0)
    case (Inl err)
    with f assms c0 show ?thesis by (auto simp: tryJob_def)
  next
    case (Inr devs)
    obtain r1 w where l: "listManagedEndpoints C token (organizationId job) (endpointPageSize opts) (world s0) = (r1, w)"
      by (cases "listManagedEndpoints C token (organizationId job) (endpointPageSize opts) (world s0)")
    have c1: "same_core st (listed s0 (organizationId job) w)"
      using c0 listed_core by (rule same_core_trans)
    show ?thesis
    proof (cases r1)
      case (Inl err)
      with f Inr l assms have "r = Inl err" "st1 = listed s0 (organizationId job) w"
        by (auto simp: tryJob_def listed_def)
      with c1 show ?thesis by simp
    next
      case eps: (Inr eps)
      with f Inr l assms have "r = Inr ()"
        "st1 = finishJob C opts token job devs eps (listed s0 (organizationId job) w)"
        by (auto simp: tryJob_def listed_def)
      with c1 show ?thesis by blast
    qed
  qed
qed

lemma finishJob_effect:
  fixes st :: "'w run_state" and opts job devs eps
  defines "lim \<equiv> safetyLimits opts (totalAppliedPatches st) (job_patches job devs eps)"
  shows "\<exists>r. jobResults (finishJob C opts token job devs eps st) = jobResults st @ [JobDone r]
     \<and> jr_tenantName r = tenant_name (tenant job) \<and> jr_organizationId r = organizationId job
     \<and> patchesPlanned r = length (job_patches job devs eps)
     \<and> patchesToProcess r = length (fst lim) \<and> limitedBy r = snd lim
     \<and> patchesApplied r \<le> length (fst lim)
     \<and> totalPlannedPatches (finishJob C opts token job devs eps st)
          = totalPlannedPatches st + patchesPlanned r
     \<and> totalAppliedPatches (finishJob C opts token job devs eps st)
          = totalAppliedPatches st + patchesApplied r
     \<and> patches_ok (trace (finishJob C opts token job devs eps st))
          = patches_ok (trace st) + patchesApplied r
     \<and> (dryRun opts \<longrightarrow> patchesApplied r = 0
          \<and> trace (finishJob C opts token job devs eps st) = trace st)"
proof (cases "dryRun opts")
  case True
  then show ?thesis
    by (simp add: finishJob_def Let_def lim_def job_patches_def)
next
  case False
  let ?ini = "\<lparr>applied = [], ap_patchErrors = [], ap_totalApplied = totalAppliedPatches st,
                  ap_trace = trace st, ap_world = world st\<rparr>"
  let ?ast = "applyPatches C opts token (organizationId job) (fst lim) ?ini"
  have e: "ap_totalApplied ?ast = totalAppliedPatches st + length (applied ?ast)
      \<and> patches_ok (ap_trace ?ast) = patches_ok (trace st) + length (applied ?ast)
      \<and> length (applied ?ast) \<le> length (fst lim)"
    using applyPatches_effect[of C opts token "organizationId job" "fst lim" ?ini] by simp
  from False e show ?thesis
    by (simp add: finishJob_def Let_def lim_def[symmetric] job_patches_def[symmetric])
qed

lemma runJobs_invariant:
  assumes "P st"
    and "\<And>job s r s1. P s \<Longrightarrow> tryJob C opts inc token job s = (r, s1) \<Longrightarrow> P s1"
    and "\<And>job err s. P s \<Longrightarrow> P (s\<lparr>jobResults := jobResults s @ [failedResult opts job err]\<rparr>)"
  shows "P (runJobs C opts inc token jobs st)"
  using assms(1)
proof (induction jobs arbitrary: st)
  case Nil
  then show ?case by simp
next
  case (Cons job jobs)
  obtain r s1 where t: "tryJob C opts inc token job st = (r, s1)"
    by (cases "tryJob C opts inc token job st")
  from assms(2)[OF Cons.prems t] have p1: "P s1" .
  show ?case
  proof (cases r)
    case (Inr u)
    with t Cons.IH[OF p1] show ?thesis by simp
  next
    case (Inl err)
    from assms(3)[OF p1]
    have p2: "P (s1\<lparr>jobResults := jobResults s1 @ [failedResult opts job err]\<rparr>)" .
    with t Inl Cons.IH[OF p2] show ?thesis by (simp add: Let_def)
  qed
qed

lemma tryJob_step:
  fixes st :: "'w run_state"
  assumes "tryJob C opts inc token job st = (r, s1)"
  shows "(\<exists>err. r = Inl err \<and> same_core st s1)
       \<or> (r = Inr () \<and> (\<exists>jr. jobResults s1 = jobResults st @ [JobDone jr]
            \<and> jr_tenantName jr = tenant_name (tenant job)
            \<and> jr_organizationId jr = organizationId job
            \<and> int (patchesToProcess jr) \<le> max 0 (maxTotalPatches opts - int (totalAppliedPatches st))
            \<and> patchesApplied jr \<le> patchesToProcess jr
            \<and> totalPlannedPatches s1 = totalPlannedPatches st + patchesPlanned jr
            \<and> totalAppliedPatches s1 = totalAppliedPatches st + patchesApplied jr
            \<and> patches_ok (trace s1) = patches_ok (trace st) + patchesApplied jr
            \<and> (dryRun opts \<longrightarrow> patchesApplied jr = 0
                 \<and> patch_calls (trace s1) = patch_calls (trace st))))"
proof -
  from tryJob_cases[OF assms] show ?thesis
  proof
    assume "\<exists>err. r = Inl err \<and> same_core st s1"
    then show ?thesis by simp
  next
    assume "\<exists>devs eps st0. r = Inr () \<and> same_core st st0 \<and> s1 = finishJob C opts token job devs eps st0"
    then obtain devs eps st0 where r: "r = Inr ()" and c: "same_core st st0"
      and s1: "s1 = finishJob C opts token job devs eps st0" by blast
    from finishJob_effect[of C opts token job devs eps st0]
    obtain jr where jr: "jobResults s1 = jobResults st0 @ [JobDone jr]"
      "jr_tenantName jr = tenant_name (tenant job)" "jr_organizationId jr = organizationId job"
      "patchesToProcess jr = length (fst (safetyLimits opts (totalAppliedPatches st0) (job_patches job devs eps)))"
      "patchesApplied jr \<le> length (fst (safetyLimits opts (totalAppliedPatches st0) (job_patches job devs eps)))"
      "totalPlannedPatches s1 = totalPlannedPatches st0 + patchesPlanned jr"
      "totalAppliedPatches s1 = totalAppliedPatches st0 + patchesApplied jr"
      "patches_ok (trace s1) = patches_ok (trace st0) + patchesApplied jr"
      "dryRun opts \<longrightarrow> patchesApplied jr = 0 \<and> trace s1 = trace st0"
      unfolding s1 by blast
    have "int (patchesToProcess jr) \<le> max 0 (maxTotalPatches opts - int (totalAppliedPatches st0))"
      unfolding jr(4) by (rule safetyLimits_length)
    with jr c r show ?thesis by (auto simp: same_core_def)
  qed
qed

lemma cap_ok_append:
  "cap_ok opts n (rs @ [x]) =
     (cap_ok opts n rs \<and> cap_ok opts (n + sum_list (map result_applied rs)) [x])"
  by (induction opts n rs rule: cap_ok.induct) (auto simp: add.assoc)

lemma sums_inv_runJobs:
  assumes "sums_inv st"
  shows "sums_inv (runJobs C opts inc token jobs st)"
proof (rule runJobs_invariant[where P = sums_inv, OF assms])
  fix job s r s1
  assume "sums_inv s" and "tryJob C opts inc token job s = (r, s1)"
  with tryJob_step[of C opts inc token job s r s1] show "sums_inv s1"
    by (auto simp: sums_inv_def same_core_def)
next
  fix job err s
  assume "sums_inv (s :: 'a run_state)"
  then show "sums_inv (s\<lparr>jobResults := jobResults s @ [failedResult opts job err]\<rparr>)"
    by (simp add: sums_inv_def failedResult_def)
qed

lemma cap_inv_runJobs:
  assumes "cap_inv opts st"
  shows "cap_inv opts (runJobs C opts inc token jobs st)"
proof (rule runJobs_invariant[where P = "cap_inv opts", OF assms])
  fix job s r s1
  assume i: "cap_inv opts s" and t: "tryJob C opts inc token job s = (r, s1)"
  from i have si: "sums_inv s" by (simp add: cap_inv_def)
  have s1: "sums_inv s1"
    using si t tryJob_step[of C opts inc token job s r s1]
    by (auto simp: sums_inv_def same_core_def)
  from tryJob_step[OF t] show "cap_inv opts s1"
  proof
    assume "\<exists>err. r = Inl err \<and> same_core s s1"
    with i s1 show ?thesis by (auto simp: cap_inv_def same_core_def)
  next
    assume "r = Inr () \<and> (\<exists>jr. jobResults s1 = jobResults s @ [JobDone jr]
            \<and> jr_tenantName jr = tenant_name (tenant job)
            \<and> jr_organizationId jr = organizationId job
            \<and> int (patchesToProcess jr) \<le> max 0 (maxTotalPatches opts - int (totalAppliedPatches s))
            \<and> patchesApplied jr \<le> patchesToProcess jr
            \<and> totalPlannedPatches s1 = totalPlannedPatches s + patchesPlanned jr
            \<and> totalAppliedPatches s1 = totalAppliedPatches s + patchesApplied jr
            \<and> patches_ok (trace s1) = patches_ok (trace s) + patchesApplied jr
            \<and> (dryRun opts \<longrightarrow> patchesApplied jr = 0
                 \<and> patch_calls (trace s1) = patch_calls (trace s)))"
    then obtain jr where jr: "jobResults s1 = jobResults s @ [JobDone jr]"
      "int (patchesToProcess jr) \<le> max 0 (maxTotalPatches opts - int (totalAppliedPatches s))"
      "patchesApplied jr \<le> patchesToProcess jr"
      "totalAppliedPatches s1 = totalAppliedPatches s + patchesApplied jr"
      "patches_ok (trace s1) = patches_ok (trace s) + patchesApplied jr"
      by blast
    from i have tot: "totalAppliedPatches s = sum_list (map result_applied (jobResults s))"
      by (simp add: cap_inv_def sums_inv_def)
    have cap: "cap_ok opts 0 (jobResults s1)"
      unfolding jr(1) cap_ok_append using i jr(2,3) tot by (simp add: cap_inv_def)
    have "int (totalAppliedPatches s) \<le> max 0 (maxTotalPatches opts)"
      using i by (simp add: cap_inv_def)
    then have bound: "int (totalAppliedPatches s1) \<le> max 0 (maxTotalPatches opts)"
      using jr(2,3) unfolding jr(4) by linarith
    have "totalAppliedPatches s1 = patches_ok (trace s1)"
      using i jr(4,5) by (simp add: cap_inv_def)
    with cap bound s1 show ?thesis by (simp add: cap_inv_def)
  qed
next
  fix job err s
  assume "cap_inv opts (s :: 'a run_state)"
  then show "cap_inv opts (s\<lparr>jobResults := jobResults s @ [failedResult opts job err]\<rparr>)"
    by (simp add: cap_inv_def sums_inv_def failedResult_def cap_ok_append)
qed

lemma runSync_cases:
  "(\<exists>err w1. getAction1AccessToken C w = (Inl err, w1)
       \<and> runSync C inc cfg options w = (Inl err, [TokenCall], w1))
   \<or> (\<exists>tok w1 st. getAction1AccessToken C w = (Inr tok, w1)
       \<and> st = runJobs C (normalizeOptions options) inc tok (getSyncJobs cfg) (start_state w1)
       \<and> runSync C inc cfg options w
           = (Inr (summary_of (normalizeOptions options) (getSyncJobs cfg) st), trace st, world st))"
proof -
  obtain r w1 where g: "getAction1AccessToken C w = (r, w1)"
    by (cases "getAction1AccessToken C w")
  show ?thesis
  proof (cases r)
    case (Inl err)
    with g show ?thesis by (simp add: runSync_def Let_def)
  next
    case (Inr tok)
    with g show ?thesis by (simp add: runSync_def Let_def start_state_def summary_of_def)
  qed
qed

lemma dry_inv_runJobs:
  assumes "dryRun opts" and "dry_inv st"
  shows "dry_inv (runJobs C opts inc token jobs st)"
proof (rule runJobs_invariant[where P = dry_inv, OF assms(2)])
  fix job s r s1
  assume i: "dry_inv s" and t: "tryJob C opts inc token job s = (r, s1)"
  from tryJob_step[OF t] assms(1) i show "dry_inv s1"
    by (auto simp: dry_inv_def same_core_def)
next
  fix job err s
  assume "dry_inv (s :: 'a run_state)"
  then show "dry_inv (s\<lparr>jobResults := jobResults s @ [failedResult opts job err]\<rparr>)"
    by (simp add: dry_inv_def failedResult_def)
qed

lemma start_state_invs:
  "sums_inv (start_state w)" "cap_inv opts (start_state w)" "dry_inv (start_state w)"
  "errors_inv (start_state w)"
  by (simp_all add: sums_inv_def cap_inv_def dry_inv_def errors_inv_def start_state_def
        patches_ok_def patch_calls_def patches_failed_def)





lemma tryJob_ident:
  assumes "tryJob C opts inc token job st = (r, s1)"
  shows "(\<exists>err. r = Inl err \<and> jobResults s1 = jobResults st)
       \<or> (r = Inr () \<and> map result_ident (jobResults s1)
             = map result_ident (jobResults st) @ [job_ident job])"
  using tryJob_step[OF assms] by (auto simp: same_core_def job_ident_def)

lemma runJobs_idents_prefix:
  "\<exists>n \<le> length jobs. map result_ident (jobResults (runJobs C opts inc token jobs st))
       = map result_ident (jobResults st) @ map job_ident (take n jobs)
     \<and> (\<not> stopOnJobError opts \<longrightarrow> n = length jobs)"
proof (induction jobs arbitrary: st)
  case Nil
  show ?case by simp
next
  case (Cons job jobs)
  obtain r s1 where t: "tryJob C opts inc token job st = (r, s1)"
    by (cases "tryJob C opts inc token job st")
  let ?goal = "\<lambda>fin. \<exists>n \<le> length (job # jobs). map result_ident (jobResults fin)
       = map result_ident (jobResults st) @ map job_ident (take n (job # jobs))
     \<and> (\<not> stopOnJobError opts \<longrightarrow> n = length (job # jobs))"
  have step: "?goal (runJobs C opts inc token jobs s2)"
    if "map result_ident (jobResults s2) = map result_ident (jobResults st) @ [job_ident job]" for s2
  proof -
    from Cons.IH[of s2] obtain n where n: "n \<le> length jobs"
      "map result_ident (jobResults (runJobs C opts inc token jobs s2))
         = map result_ident (jobResults s2) @ map job_ident (take n jobs)"
      "\<not> stopOnJobError opts \<longrightarrow> n = length jobs" by blast
    with that show ?thesis by (intro exI[of _ "Suc n"]) simp
  qed
  show ?case
  proof (cases r)
    case (Inr u)
    with t tryJob_ident[OF t] step[of s1] show ?thesis by simp
  next
    case (Inl err)
    let ?s2 = "s1\<lparr>jobResults := jobResults s1 @ [failedResult opts job err]\<rparr>"
    from Inl tryJob_ident[OF t]
    have id2: "map result_ident (jobResults ?s2) = map result_ident (jobResults st) @ [job_ident job]"
      by (simp add: failedResult_def job_ident_def)
    show ?thesis
    proof (cases "stopOnJobError opts")
      case True
      with t Inl have "runJobs C opts inc token (job # jobs) st = ?s2" by (simp add: Let_def)
      with id2 True show ?thesis by (intro exI[of _ "Suc 0"]) simp
    next
      case False
      with t Inl have "runJobs C opts inc token (job # jobs) st = runJobs C opts inc token jobs ?s2"
        by (simp add: Let_def)
      with step[OF id2] show ?thesis by simp
    qed
  qed
qed

section \<open>The claims\<close>

subsection \<open>The name matcher\<close>

text \<open>
  Claim C1 (matching totality). For every list of device records and every list of
  endpoint records, the three buckets returned by \<open>matchDevices\<close> together have as many
  entries as there are devices, and the devices they hold are, counted with
  multiplicity, exactly the input devices: each device lands in exactly one bucket. A
  device whose normalized display name is empty (the name as it stands, or the key
  \<^verbatim>\<open>fullKey\<close> the loop computes from it) is in \<open>unmatchedEntra\<close> and in neither of the
  other two buckets.
\<close>

theorem matchDevices_total:
  "length (matched (matchDevices devices endpoints))
     + length (unmatchedEntra (matchDevices devices endpoints))
     + length (ambiguous (matchDevices devices endpoints)) = length devices
   \<and> mset (map entraDevice (matched (matchDevices devices endpoints)))
     + mset (unmatchedEntra (matchDevices devices endpoints))
     + mset (map amb_entraDevice (ambiguous (matchDevices devices endpoints))) = mset devices
   \<and> (\<forall>dev \<in> set devices.
         normalizeName (js_get dev ''displayName'') = [] \<or> displayKey dev = [] \<longrightarrow>
         dev \<in> set (unmatchedEntra (matchDevices devices endpoints))
       \<and> dev \<notin> entraDevice ` set (matched (matchDevices devices endpoints))
       \<and> dev \<notin> amb_entraDevice ` set (ambiguous (matchDevices devices endpoints)))"
proof -
  let ?f = "buildEndpointIndex endpoints" and ?s = "buildEndpointShortIndex endpoints"
  let ?r = "matchDevices devices endpoints"
  have r: "?r = foldl (match_step ?f ?s) \<lparr>matched = [], unmatchedEntra = [], ambiguous = []\<rparr> devices"
    by (simp add: matchDevices_def Let_def)
  have "bucket_count ?r = length devices"
    unfolding r foldl_match_step_count by (simp add: bucket_count_def)
  then have 1: "length (matched ?r) + length (unmatchedEntra ?r) + length (ambiguous ?r) = length devices"
    by (simp add: bucket_count_def)
  have "bucket_devices ?r = mset devices"
    unfolding r foldl_match_step_devices by (simp add: bucket_devices_def)
  then have 2: "mset (map entraDevice (matched ?r)) + mset (unmatchedEntra ?r)
     + mset (map amb_entraDevice (ambiguous ?r)) = mset devices"
    by (simp add: bucket_devices_def)
  have 3: "dev \<in> set (unmatchedEntra ?r) \<and> dev \<notin> entraDevice ` set (matched ?r)
       \<and> dev \<notin> amb_entraDevice ` set (ambiguous ?r)"
    if d: "dev \<in> set devices"
      and k0: "normalizeName (js_get dev ''displayName'') = [] \<or> displayKey dev = []" for dev
  proof -
    from k0 have k: "displayKey dev = []" by (auto simp: displayKey_blank)
    note c = classify_empty_name[OF k, of ?f ?s]
    have "dev \<in> set (unmatchedEntra (classify ?f ?s dev))" by (simp add: c no_match_def)
    with d have a: "dev \<in> set (unmatchedEntra ?r)" by (auto simp: matchDevices_classify)
    have b: "dev \<notin> entraDevice ` set (matched ?r)"
    proof
      assume "dev \<in> entraDevice ` set (matched ?r)"
      then obtain p d' where "d' \<in> set devices" "p \<in> set (matched (classify ?f ?s d'))"
        "entraDevice p = dev" by (auto simp: matchDevices_classify)
      with classify_matched_dev[of p ?f ?s d'] c show False by (simp add: no_match_def)
    qed
    have "dev \<notin> amb_entraDevice ` set (ambiguous ?r)"
    proof
      assume "dev \<in> amb_entraDevice ` set (ambiguous ?r)"
      then obtain p d' where "d' \<in> set devices" "p \<in> set (ambiguous (classify ?f ?s d'))"
        "amb_entraDevice p = dev" by (auto simp: matchDevices_classify)
      with classify_ambiguous_dev[of p ?f ?s d'] c show False by (simp add: no_match_def)
    qed
    with a b show ?thesis by simp
  qed
  from 1 2 3 show ?thesis by blast
qed

theorem matchDevices_total_witness:
  "dev_blank \<in> set [dev_pc1, dev_blank, dev_srv] \<and> displayKey dev_blank = []
   \<and> dev_blank \<in> set (unmatchedEntra (matchDevices [dev_pc1, dev_blank, dev_srv] [ep_pc1, ep_srv_a, ep_srv_b]))
   \<and> length (matched (matchDevices [dev_pc1, dev_blank, dev_srv] [ep_pc1, ep_srv_a, ep_srv_b]))
     + length (unmatchedEntra (matchDevices [dev_pc1, dev_blank, dev_srv] [ep_pc1, ep_srv_a, ep_srv_b]))
     + length (ambiguous (matchDevices [dev_pc1, dev_blank, dev_srv] [ep_pc1, ep_srv_a, ep_srv_b])) = 3"
proof -
  have m: "dev_blank \<in> set [dev_pc1, dev_blank, dev_srv]" by simp
  have k: "displayKey dev_blank = []" by code_simp
  from matchDevices_total[of "[dev_pc1, dev_blank, dev_srv]" "[ep_pc1, ep_srv_a, ep_srv_b]"] m k
  show ?thesis by simp
qed

text \<open>
  Claim C2 (ambiguity precedence), as amended: the display name must not normalize to
  the empty string. For a device whose non-empty normalized display name is the
  normalized full name of two or more endpoints, the loop body pushes the device on
  \<open>ambiguous\<close> with reason \<open>Duplicate_full\<close> and all those endpoints as candidates,
  whatever the short-name index holds; so in the result of \<open>matchDevices\<close> the device
  is ambiguous with that reason only, and is neither matched nor unmatched.
\<close>

theorem duplicate_full_precedence:
  assumes "dev \<in> set devices"
    and "displayKey dev \<noteq> []"
    and "length (filter (\<lambda>ep. endpointKey ep = displayKey dev) endpoints) \<ge> 2"
  shows "(\<forall>shortIndex acc. match_step (buildEndpointIndex endpoints) shortIndex acc dev =
            acc\<lparr>ambiguous := ambiguous acc @
              [\<lparr>amb_entraDevice = dev,
                candidates = filter (\<lambda>ep. endpointKey ep = displayKey dev) endpoints,
                reason = Duplicate_full\<rparr>]\<rparr>)
       \<and> \<lparr>amb_entraDevice = dev,
           candidates = filter (\<lambda>ep. endpointKey ep = displayKey dev) endpoints,
           reason = Duplicate_full\<rparr> \<in> set (ambiguous (matchDevices devices endpoints))
       \<and> (\<forall>a \<in> set (ambiguous (matchDevices devices endpoints)).
            amb_entraDevice a = dev \<longrightarrow> reason a = Duplicate_full)
       \<and> dev \<notin> entraDevice ` set (matched (matchDevices devices endpoints))
       \<and> dev \<notin> set (unmatchedEntra (matchDevices devices endpoints))"
proof -
  let ?f = "buildEndpointIndex endpoints" and ?s = "buildEndpointShortIndex endpoints"
  let ?cs = "filter (\<lambda>ep. endpointKey ep = displayKey dev) endpoints"
  let ?e = "\<lparr>amb_entraDevice = dev, candidates = ?cs, reason = Duplicate_full\<rparr>"
  let ?r = "matchDevices devices endpoints"
  from assms(3) have ne: "?cs \<noteq> []" by auto
  with assms(2) have idx: "?f (displayKey dev) = Some ?cs"
    by (simp add: buildEndpointIndex_lookup Let_def endpointKey_def)
  have cl: "classify ?f s dev = no_match\<lparr>ambiguous := [?e]\<rparr>" for s
    using assms(2) idx assms(3) by (rule classify_duplicate_full)
  have 1: "match_step ?f s acc dev = acc\<lparr>ambiguous := ambiguous acc @ [?e]\<rparr>" for s acc
    by (simp add: match_step_classify[of ?f s acc dev] cl no_match_def)
  have 2: "?e \<in> set (ambiguous ?r)"
    using assms(1) cl[of ?s] by (auto simp: matchDevices_classify no_match_def intro!: bexI[of _ dev])
  have 3: "reason a = Duplicate_full" if a: "a \<in> set (ambiguous ?r)" and d: "amb_entraDevice a = dev" for a
  proof -
    from a obtain d' where d': "d' \<in> set devices" "a \<in> set (ambiguous (classify ?f ?s d'))"
      by (auto simp: matchDevices_classify)
    with classify_ambiguous_dev[of a ?f ?s d'] d have "d' = dev" by simp
    with d' cl[of ?s] show ?thesis by (simp add: no_match_def)
  qed
  have 4: "dev \<notin> entraDevice ` set (matched ?r)"
  proof
    assume "dev \<in> entraDevice ` set (matched ?r)"
    then obtain p d' where "d' \<in> set devices" "p \<in> set (matched (classify ?f ?s d'))"
      "entraDevice p = dev" by (auto simp: matchDevices_classify)
    with classify_matched_dev[of p ?f ?s d'] cl[of ?s] show False by (simp add: no_match_def)
  qed
  have 5: "dev \<notin> set (unmatchedEntra ?r)"
  proof
    assume "dev \<in> set (unmatchedEntra ?r)"
    then obtain d' where "d' \<in> set devices" "dev \<in> set (unmatchedEntra (classify ?f ?s d'))"
      by (auto simp: matchDevices_classify)
    with classify_unmatched_dev[of dev ?f ?s d'] cl[of ?s] show False by (simp add: no_match_def)
  qed
  from 1 2 3 4 5 show ?thesis by blast
qed

lemma ex_keys:
  "displayKey dev_srv = ''srv.corp.local''" "endpointKey ep_pc1 = ''pc1''"
  "endpointKey ep_srv_a = ''srv.corp.local''" "endpointKey ep_srv_b = ''srv.corp.local''"
  "endpointKey ep_srv_short = ''srv''"
  by code_simp+

theorem duplicate_full_precedence_witness:
  "dev_srv \<in> set [dev_pc1, dev_srv] \<and> displayKey dev_srv \<noteq> []
   \<and> length (filter (\<lambda>ep. endpointKey ep = displayKey dev_srv) [ep_pc1, ep_srv_a, ep_srv_short, ep_srv_b]) \<ge> 2
   \<and> normalizeShortName (JStr ''Srv.corp.local'') = endpointKey ep_srv_short
   \<and> \<lparr>amb_entraDevice = dev_srv, candidates = [ep_srv_a, ep_srv_b], reason = Duplicate_full\<rparr>
       \<in> set (ambiguous (matchDevices [dev_pc1, dev_srv] [ep_pc1, ep_srv_a, ep_srv_short, ep_srv_b]))
   \<and> dev_srv \<notin> entraDevice ` set (matched (matchDevices [dev_pc1, dev_srv] [ep_pc1, ep_srv_a, ep_srv_short, ep_srv_b]))"
proof -
  have m: "dev_srv \<in> set [dev_pc1, dev_srv]" by simp
  have k: "displayKey dev_srv \<noteq> []" by (simp add: ex_keys)
  have f: "filter (\<lambda>ep. endpointKey ep = displayKey dev_srv) [ep_pc1, ep_srv_a, ep_srv_short, ep_srv_b] = [ep_srv_a, ep_srv_b]"
    by (simp add: ex_keys)
  then have n: "length (filter (\<lambda>ep. endpointKey ep = displayKey dev_srv) [ep_pc1, ep_srv_a, ep_srv_short, ep_srv_b]) \<ge> 2"
    by simp
  have s: "normalizeShortName (JStr ''Srv.corp.local'') = endpointKey ep_srv_short" by code_simp
  from duplicate_full_precedence[OF m k n] m k n s show ?thesis unfolding f by blast
qed

text \<open>
  Claim C2 as stated fails for the empty name: a device whose display name is blank
  shares its normalized name with two endpoints without a name, and is unmatched, not
  ambiguous (the guard on an empty key comes first, and endpoints without a name are
  not indexed).
\<close>

theorem duplicate_full_empty_name_counterexample:
  "displayKey dev_blank = endpointKey ep_noname
   \<and> ambiguous (matchDevices [dev_blank] [ep_noname, ep_noname]) = []
   \<and> unmatchedEntra (matchDevices [dev_blank] [ep_noname, ep_noname]) = [dev_blank]"
  by code_simp

subsection \<open>The patch builder\<close>

lemma buildEndpointPatch_entries:
  assumes "buildEndpointPatch dev ms = Some p" and "(k, x) \<in> set p"
  shows "usable_value x \<and> custom_key k"
proof -
  from assms(1) have p: "p = foldl (patch_step dev) [] ms"
    by (simp add: buildEndpointPatch_def Let_def split: if_splits)
  have "\<forall>(k, v) \<in> set (foldl (patch_step dev) [] ms). usable_value v \<and> custom_key k"
    by (rule patch_entries) simp
  with assms(2) p show ?thesis by auto
qed

lemma buildEndpointPatch_foldl:
  "foldl (patch_step dev) [] ms \<noteq> [] \<Longrightarrow>
     buildEndpointPatch dev ms = Some (foldl (patch_step dev) [] ms)"
  by (simp add: buildEndpointPatch_def Let_def)

text \<open>
  Claim C9 (custom-key normalization). \<open>toCustomKey\<close> is idempotent, on every input
  and so on every string; a name whose trimmed form already begins with \<^verbatim>\<open>custom:\<close> in
  any letter case comes back as that trimmed form, without a second prefix; and every
  key of a patch built by \<open>buildEndpointPatch\<close> begins, case-insensitively, with
  \<^verbatim>\<open>custom:\<close>.
\<close>

theorem toCustomKey_idempotent:
  "toCustomKey (JStr (toCustomKey a)) = toCustomKey a
   \<and> (startsWith (toLowerCase (trim s)) ''custom:'' \<longrightarrow> toCustomKey (JStr s) = trim s)
   \<and> (\<forall>p. buildEndpointPatch dev ms = Some p \<longrightarrow>
         (\<forall>k \<in> fst ` set p. startsWith (toLowerCase k) ''custom:''))"
proof -
  have "startsWith (toLowerCase k) ''custom:''"
    if "buildEndpointPatch dev ms = Some p" and "k \<in> fst ` set p" for p k
  proof -
    from that(2) obtain x where "(k, x) \<in> set p" by auto
    with that(1) buildEndpointPatch_entries[of dev ms p k x] show ?thesis
      by (simp add: custom_key_def)
  qed
  with toCustomKey_idem[of a] toCustomKey_prefixed[of s] show ?thesis by blast
qed

theorem toCustomKey_idempotent_witness:
  "startsWith (toLowerCase (trim '' CUSTOM:Compliant '')) ''custom:''
   \<and> toCustomKey (JStr '' CUSTOM:Compliant '') = ''CUSTOM:Compliant''
   \<and> toCustomKey (JStr (toCustomKey (JStr ''Risk''))) = ''custom:Risk''
   \<and> buildEndpointPatch dev_attrs ex_mappings
        = Some [(''custom:Risk'', JNum 0), (''CUSTOM:Compliant'', JBool False)]
   \<and> startsWith (toLowerCase ''custom:Risk'') ''custom:''
   \<and> startsWith (toLowerCase ''CUSTOM:Compliant'') ''custom:''"
proof -
  have h: "startsWith (toLowerCase (trim '' CUSTOM:Compliant '')) ''custom:''" by code_simp
  have t: "trim '' CUSTOM:Compliant '' = ''CUSTOM:Compliant''" by code_simp
  have r: "toCustomKey (JStr ''Risk'') = ''custom:Risk''" by code_simp
  have b: "buildEndpointPatch dev_attrs ex_mappings
        = Some [(''custom:Risk'', JNum 0), (''CUSTOM:Compliant'', JBool False)]" by code_simp
  from toCustomKey_idempotent[of "JStr ''Risk''" "'' CUSTOM:Compliant ''" dev_attrs ex_mappings] h t r b
  show ?thesis by simp
qed

lemma valid_mapping_well_formed:
  assumes "valid_mapping m"
  shows "truthy (js_get m ''entraProperty'')
       \<and> toCustomKey (js_get m ''action1CustomAttribute'') \<noteq> []"
proof -
  from assms obtain p a where p: "js_get m ''entraProperty'' = JStr p" "trim p \<noteq> []"
    and a: "js_get m ''action1CustomAttribute'' = JStr a" "trim a \<noteq> []"
    by (auto simp: valid_mapping_def isNonEmptyString_def split: jsval.splits)
  from p(2) have "p \<noteq> []" by (auto simp: trim_def)
  moreover from a(2) have "a \<noteq> []" by (auto simp: trim_def)
  then have "toCustomKey (JStr a) \<noteq> []" using a(2)
    by (simp add: toCustomKey_def js_or_def Let_def)
  ultimately show ?thesis by (simp add: p a)
qed

text \<open>
  Claim C6 (patch blank-skip). Let \<open>v\<close> be the value a mapping reads off the device.
  If \<open>v\<close> is \<^verbatim>\<open>null\<close>, \<^verbatim>\<open>undefined\<close> or a string that is empty after trimming, the
  mapping leaves the patch as it is, and no value of a built patch is of that kind. If
  \<open>v\<close> is \<^verbatim>\<open>0\<close> or \<^verbatim>\<open>false\<close> and the mapping is well formed (a non-empty source
  property and a non-blank attribute name, the invariant of a property mapping, which
  every mapping accepted by \<^verbatim>\<open>loadConfig\<close> satisfies), the mapping writes \<open>v\<close> under its
  custom key: the built patch is not \<^verbatim>\<open>null\<close> and has that key, and it holds \<open>v\<close>
  there unless a later mapping targets the same key.
\<close>

theorem buildEndpointPatch_blank_skip:
  assumes "v = js_get dev (js_String (js_get m ''entraProperty''))"
    and "key = toCustomKey (js_get m ''action1CustomAttribute'')"
  shows "((v = JNull \<or> v = JUndefined \<or> is_blank_string v) \<longrightarrow> patch_step dev acc m = acc)
   \<and> (\<forall>p. buildEndpointPatch dev ms = Some p \<longrightarrow>
         (\<forall>(k, x) \<in> set p. x \<noteq> JNull \<and> x \<noteq> JUndefined \<and> \<not> is_blank_string x))
   \<and> (valid_mapping m \<longrightarrow> truthy (js_get m ''entraProperty'') \<and> key \<noteq> [])
   \<and> ((v = JNum 0 \<or> v = JBool False) \<and> truthy (js_get m ''entraProperty'') \<and> key \<noteq> [] \<longrightarrow>
         patch_step dev acc m = AList.update key v acc
       \<and> (m \<in> set ms \<longrightarrow> (\<exists>p. buildEndpointPatch dev ms = Some p \<and> key \<in> fst ` set p))
       \<and> (\<forall>before after. ms = before @ [m] @ after
             \<and> (\<forall>m' \<in> set after. toCustomKey (js_get m' ''action1CustomAttribute'') \<noteq> key)
            \<longrightarrow> (\<exists>p. buildEndpointPatch dev ms = Some p \<and> map_of p key = Some v)))"
proof -
  have 1: "patch_step dev acc m = acc" if "v = JNull \<or> v = JUndefined \<or> is_blank_string v"
    using that assms by (auto simp: patch_step_def Let_def)
  have 2: "x \<noteq> JNull \<and> x \<noteq> JUndefined \<and> \<not> is_blank_string x"
    if "buildEndpointPatch dev ms = Some p" and "(k, x) \<in> set p" for p k x
    using buildEndpointPatch_entries[OF that] by (simp add: usable_value_def)
  have 3: "patch_step dev acc m = AList.update key v acc
       \<and> (m \<in> set ms \<longrightarrow> (\<exists>p. buildEndpointPatch dev ms = Some p \<and> key \<in> fst ` set p))
       \<and> (\<forall>before after. ms = before @ [m] @ after
             \<and> (\<forall>m' \<in> set after. toCustomKey (js_get m' ''action1CustomAttribute'') \<noteq> key)
            \<longrightarrow> (\<exists>p. buildEndpointPatch dev ms = Some p \<and> map_of p key = Some v))"
    if v: "v = JNum 0 \<or> v = JBool False" and e: "truthy (js_get m ''entraProperty'')" and k: "key \<noteq> []"
  proof -
    from k assms(2) have a: "truthy (js_get m ''action1CustomAttribute'')"
      by (simp add: toCustomKey_truthy)
    from v have u: "v \<noteq> JNull \<and> v \<noteq> JUndefined \<and> \<not> is_blank_string v"
      by (auto simp: is_blank_string_def)
    with e a k assms have w: "writes dev m = Some (key, v)" by (simp add: writes_def Let_def)
    then have s: "patch_step dev acc m = AList.update key v acc"
      by (simp add: patch_step_writes)
    have p: "\<exists>p. buildEndpointPatch dev ms = Some p \<and> key \<in> fst ` set p" if "m \<in> set ms"
    proof -
      from written_key_present[OF that w, of "[]"]
      have in_keys: "key \<in> fst ` set (foldl (patch_step dev) [] ms)" .
      then have "foldl (patch_step dev) [] ms \<noteq> []" by auto
      with in_keys show ?thesis by (simp add: buildEndpointPatch_foldl)
    qed
    have l: "\<exists>p. buildEndpointPatch dev ms = Some p \<and> map_of p key = Some v"
      if ms: "ms = before @ [m] @ after"
        and af: "\<forall>m' \<in> set after. toCustomKey (js_get m' ''action1CustomAttribute'') \<noteq> key"
      for before after
    proof -
      from af have "\<forall>m' \<in> set after. \<forall>v'. writes dev m' \<noteq> Some (key, v')"
        by (auto simp: writes_def Let_def split: if_splits)
      from written_last_value[OF w this, of "[]" before]
      have val: "map_of (foldl (patch_step dev) [] ms) key = Some v" by (simp add: ms)
      then have "foldl (patch_step dev) [] ms \<noteq> []" by auto
      with val show ?thesis by (simp add: buildEndpointPatch_foldl)
    qed
    from s p l show ?thesis by blast
  qed
  have 4: "truthy (js_get m ''entraProperty'') \<and> key \<noteq> []" if "valid_mapping m"
    using valid_mapping_well_formed[OF that] assms(2) by simp
  from 1 2 3 4 show ?thesis by blast
qed

theorem buildEndpointPatch_blank_skip_witness:
  "js_get dev_attrs (js_String (js_get (mk_mapping ''riskScore'' ''Risk'') ''entraProperty'')) = JNum 0
   \<and> toCustomKey (js_get (mk_mapping ''riskScore'' ''Risk'') ''action1CustomAttribute'') = ''custom:Risk''
   \<and> valid_mapping (mk_mapping ''riskScore'' ''Risk'')
   \<and> truthy (js_get (mk_mapping ''riskScore'' ''Risk'') ''entraProperty'')
   \<and> mk_mapping ''riskScore'' ''Risk'' \<in> set ex_mappings
   \<and> (\<exists>p. buildEndpointPatch dev_attrs ex_mappings = Some p \<and> map_of p ''custom:Risk'' = Some (JNum 0))
   \<and> is_blank_string (js_get dev_attrs (js_String (js_get (mk_mapping ''enrollmentType'' ''Enrollment'') ''entraProperty'')))
   \<and> patch_step dev_attrs [(''custom:Risk'', JNum 0)] (mk_mapping ''enrollmentType'' ''Enrollment'')
        = [(''custom:Risk'', JNum 0)]"
proof -
  let ?m = "mk_mapping ''riskScore'' ''Risk''" and ?b = "mk_mapping ''enrollmentType'' ''Enrollment''"
  let ?after = "[mk_mapping ''enrollmentType'' ''Enrollment'',
      mk_mapping ''isCompliant'' '' CUSTOM:Compliant '', mk_mapping ''deviceOwnership'' ''Owner'',
      mk_mapping ''missing'' ''Missing'']"
  have v: "JNum 0 = js_get dev_attrs (js_String (js_get ?m ''entraProperty''))" by code_simp
  have k: "''custom:Risk'' = toCustomKey (js_get ?m ''action1CustomAttribute'')" by code_simp
  have vm: "valid_mapping ?m" by code_simp
  from buildEndpointPatch_blank_skip[OF v k, of "[]" ex_mappings] vm
  have t: "truthy (js_get ?m ''entraProperty'')" by blast
  have i: "?m \<in> set ex_mappings" by (simp add: ex_mappings_def)
  have ms: "ex_mappings = [] @ [?m] @ ?after" by (simp add: ex_mappings_def)
  have af: "\<forall>m' \<in> set ?after. toCustomKey (js_get m' ''action1CustomAttribute'') \<noteq> ''custom:Risk''"
    by code_simp
  have bv: "JStr '' '' = js_get dev_attrs (js_String (js_get ?b ''entraProperty''))" by code_simp
  have bk: "''custom:Enrollment'' = toCustomKey (js_get ?b ''action1CustomAttribute'')" by code_simp
  have bl: "is_blank_string (JStr '' '')" by code_simp
  from buildEndpointPatch_blank_skip[OF v k, of "[]" ex_mappings] t ms af
  have 1: "\<exists>p. buildEndpointPatch dev_attrs ex_mappings = Some p \<and> map_of p ''custom:Risk'' = Some (JNum 0)"
    by blast
  from buildEndpointPatch_blank_skip[OF bv bk, of "[(''custom:Risk'', JNum 0)]" ex_mappings] bl
  have 2: "patch_step dev_attrs [(''custom:Risk'', JNum 0)] ?b = [(''custom:Risk'', JNum 0)]"
    by blast
  from 1 2 v[symmetric] k[symmetric] vm t i bv[symmetric] bl show ?thesis by simp
qed

subsection \<open>The sync orchestrator\<close>

lemma perJobLimit_over:
  assumes "int (length planned) > maxPatchesPerJob opts" and "0 \<le> maxPatchesPerJob opts"
  shows "perJobLimit opts planned
       = (take (nat (maxPatchesPerJob opts)) planned,
          Some (''maxPatchesPerJob='' @ show_int (maxPatchesPerJob opts)))"
  using assms by (simp add: perJobLimit_def js_slice0_def)

lemma safetyLimits_over:
  assumes "int (length planned) > maxPatchesPerJob opts" and "0 \<le> maxPatchesPerJob opts"
  shows "fst (safetyLimits opts n planned)
           = take (nat (min (maxPatchesPerJob opts) (max 0 (maxTotalPatches opts - int n)))) planned
       \<and> (\<exists>rest. snd (safetyLimits opts n planned)
             = Some (''maxPatchesPerJob='' @ show_int (maxPatchesPerJob opts) @ rest))
       \<and> (int n + maxPatchesPerJob opts \<le> maxTotalPatches opts \<longrightarrow>
            safetyLimits opts n planned
              = (take (nat (maxPatchesPerJob opts)) planned,
                 Some (''maxPatchesPerJob='' @ show_int (maxPatchesPerJob opts))))"
proof -
  let ?m = "maxPatchesPerJob opts"
  have len: "int (length (take (nat ?m) planned)) = ?m" using assms by simp
  show ?thesis
  proof (cases "int n + ?m \<le> maxTotalPatches opts")
    case True
    then have "min ?m (max 0 (maxTotalPatches opts - int n)) = ?m" by simp
    with True len assms show ?thesis
      by (simp add: safetyLimits_def perJobLimit_over globalLimit_def)
  next
    case False
    then have m: "min ?m (max 0 (maxTotalPatches opts - int n)) = max 0 (maxTotalPatches opts - int n)"
      using assms(2) by simp
    have le: "nat (max 0 (maxTotalPatches opts - int n)) \<le> nat ?m" using False assms(2) by simp
    from False len assms le show ?thesis
      by (simp add: safetyLimits_def perJobLimit_over globalLimit_def Let_def js_slice0_def m min_absorb1)
  qed
qed

lemma run_Inr:
  assumes "run_totals out = Inr (p, a)"
  obtains s tr w' where "out = (Inr s, tr, w')" "sum_totalPlannedPatches s = p"
    "sum_totalAppliedPatches s = a"
proof -
  obtain x tr w' where o: "out = (x, tr, w')" by (cases out) auto
  with assms obtain s where "x = Inr s" "sum_totalPlannedPatches s = p" "sum_totalAppliedPatches s = a"
    by (cases x) (auto simp: run_totals_def)
  with o that show ?thesis by blast
qed

lemma concat_map_concat_replicate:
  "concat (map g (concat (replicate n xs))) = concat (replicate n (concat (map g xs)))"
  by (induction n) simp_all

lemma job_patches_replicate:
  "job_patches job (replicate n d) eps =
     concat (replicate n (concat (map (pair_patches (mappings job))
       (matched (classify (buildEndpointIndex eps) (buildEndpointShortIndex eps) d)))))"
proof -
  have "concat (map f (replicate n d)) = concat (replicate n (f d))" for f :: "jsval \<Rightarrow> matched_pair list"
    by simp
  then show ?thesis
    by (simp add: job_patches_def mapDevicesToPatches_def matchDevices_classify Let_def
          concat_map_concat_replicate)
qed

lemma cap_ok_limit_ok:
  "int n \<le> maxTotalPatches opts \<Longrightarrow> cap_ok opts n rs \<Longrightarrow> limit_ok opts n rs"
proof (induction opts n rs rule: cap_ok.induct)
  case (1 opts n)
  show ?case by simp
next
  case (2 opts n r rs)
  from "2.prems" have le: "int (patchesToProcess r) \<le> maxTotalPatches opts - int n"
    and ap: "patchesApplied r \<le> patchesToProcess r"
    and rest: "cap_ok opts (n + patchesApplied r) rs" by simp_all
  from le ap have "int (n + patchesApplied r) \<le> maxTotalPatches opts" by simp
  from "2.IH"[OF this rest] le ap show ?case by simp
next
  case (3 opts n f rs)
  then show ?case by simp
qed

text \<open>
  Claim C3 (global limit invariant). For a limit \<^verbatim>\<open>maxTotalPatches\<close> that is not
  negative (the command line admits positive integers only), in every run that
  returns a summary the total of applied patches is at most \<^verbatim>\<open>maxTotalPatches\<close>; job
  by job, the list handed to the apply phase has at most \<open>maxTotalPatches - n\<close> entries,
  possibly none, \<open>n\<close> being the total applied so far (\<open>limit_ok\<close> on the results, and
  the bound on \<open>safetyLimits\<close> itself); the total counts the calls of
  \<^verbatim>\<open>patchManagedEndpoint\<close> that returned, and in a dry run it is zero and no such call
  is made.
\<close>

theorem global_limit_invariant:
  assumes "runSync C includeName cfg options w = (Inr s, tr, w')"
    and "opts = normalizeOptions options"
    and "0 \<le> maxTotalPatches opts"
  shows "int (sum_totalAppliedPatches s) \<le> maxTotalPatches opts
       \<and> limit_ok opts 0 (results s)
       \<and> sum_totalAppliedPatches s = patches_ok tr
       \<and> (dryRun opts \<longrightarrow> sum_totalAppliedPatches s = 0 \<and> patch_calls tr = [])
       \<and> (\<forall>n ps. int n \<le> maxTotalPatches opts \<longrightarrow>
             int (length (fst (safetyLimits opts n (ps :: patch_item list))))
               \<le> maxTotalPatches opts - int n)"
proof -
  from runSync_cases[of C w includeName cfg options] assms(1,2)
  obtain tok w1 st where
    st: "st = runJobs C opts includeName tok (getSyncJobs cfg) (start_state w1)"
    and s: "s = summary_of opts (getSyncJobs cfg) st" and tr: "tr = trace st"
    by auto
  have c: "cap_inv opts st" unfolding st by (rule cap_inv_runJobs) (rule start_state_invs)
  have d: "dry_inv st" if "dryRun opts"
    unfolding st using that by (rule dry_inv_runJobs) (rule start_state_invs)
  from c assms(3) have 1: "int (sum_totalAppliedPatches s) \<le> maxTotalPatches opts"
    by (simp add: s summary_of_def cap_inv_def)
  from c have "cap_ok opts 0 (results s)" by (simp add: s summary_of_def cap_inv_def)
  with assms(3) have 2: "limit_ok opts 0 (results s)" by (simp add: cap_ok_limit_ok)
  from c have 3: "sum_totalAppliedPatches s = patches_ok tr"
    by (simp add: s tr summary_of_def cap_inv_def)
  from d have 4: "dryRun opts \<longrightarrow> sum_totalAppliedPatches s = 0 \<and> patch_calls tr = []"
    by (simp add: s tr summary_of_def dry_inv_def)
  have 5: "int (length (fst (safetyLimits opts n ps))) \<le> maxTotalPatches opts - int n"
    if "int n \<le> maxTotalPatches opts" for n and ps :: "patch_item list"
    using safetyLimits_length[of opts n ps] that by simp
  from 1 2 3 4 5 show ?thesis by blast
qed

theorem global_limit_invariant_witness:
  "0 \<le> maxTotalPatches (normalizeOptions apply_options)
   \<and> (\<exists>s tr w'. runSync ex_platform False ex_config apply_options 0 = (Inr s, tr, w')
         \<and> maxTotalPatches (normalizeOptions apply_options) = 3
         \<and> sum_totalAppliedPatches s = 3 \<and> patches_ok tr = 3
         \<and> limit_ok (normalizeOptions apply_options) 0 (results s))
   \<and> run_limits (runSync ex_platform False ex_config apply_options 0)
       = Inr [Some (3, 2, 2, Some ''maxPatchesPerJob=2''),
              Some (3, 1, 1, Some ''maxPatchesPerJob=2, maxTotalPatches=3'')]
   \<and> int (length (fst (safetyLimits (normalizeOptions apply_options) 2 [ex_item, ex_item, ex_item])))
       \<le> 1
   \<and> 0 \<le> maxTotalPatches (normalizeOptions [(''maxTotalPatches'', JNum 3)])
   \<and> dryRun (normalizeOptions [(''maxTotalPatches'', JNum 3)])
   \<and> (\<exists>s tr w'. runSync ex_platform False ex_config [(''maxTotalPatches'', JNum 3)] 0 = (Inr s, tr, w')
         \<and> sum_totalPlannedPatches s = 6 \<and> sum_totalAppliedPatches s = 0 \<and> patch_calls tr = [])"
proof -
  let ?out = "runSync ex_platform False ex_config apply_options 0"
  let ?dry = "runSync ex_platform False ex_config [(''maxTotalPatches'', JNum 3)] 0"
  have t: "run_totals ?out = Inr (6, 3)" by code_simp
  have l: "run_limits ?out
       = Inr [Some (3, 2, 2, Some ''maxPatchesPerJob=2''),
              Some (3, 1, 1, Some ''maxPatchesPerJob=2, maxTotalPatches=3'')]" by code_simp
  have m: "maxTotalPatches (normalizeOptions apply_options) = 3" by code_simp
  then have pos: "0 \<le> maxTotalPatches (normalizeOptions apply_options)" by simp
  from t obtain s tr w' where o: "?out = (Inr s, tr, w')" and a: "sum_totalAppliedPatches s = 3"
    by (rule run_Inr)
  note g = global_limit_invariant[OF o refl pos]
  from g o m a
  have 1: "\<exists>s tr w'. ?out = (Inr s, tr, w')
     \<and> maxTotalPatches (normalizeOptions apply_options) = 3
     \<and> sum_totalAppliedPatches s = 3 \<and> patches_ok tr = 3
     \<and> limit_ok (normalizeOptions apply_options) 0 (results s)" by simp
  from g m
  have 2: "int (length (fst (safetyLimits (normalizeOptions apply_options) 2
             [ex_item, ex_item, ex_item]))) \<le> 1"
    by (auto dest!: spec[of _ "2::nat"] spec[of _ "[ex_item, ex_item, ex_item]"])
  have md: "maxTotalPatches (normalizeOptions [(''maxTotalPatches'', JNum 3)]) = 3" by code_simp
  then have posd: "0 \<le> maxTotalPatches (normalizeOptions [(''maxTotalPatches'', JNum 3)])" by simp
  have d: "dryRun (normalizeOptions [(''maxTotalPatches'', JNum 3)])" by code_simp
  have td: "run_totals ?dry = Inr (6, 0)" by code_simp
  from td obtain s2 tr2 w2 where o2: "?dry = (Inr s2, tr2, w2)"
    and p2: "sum_totalPlannedPatches s2 = 6" by (rule run_Inr)
  from global_limit_invariant[OF o2 refl posd] d o2 p2
  have 3: "\<exists>s tr w'. ?dry = (Inr s, tr, w')
         \<and> sum_totalPlannedPatches s = 6 \<and> sum_totalAppliedPatches s = 0 \<and> patch_calls tr = []"
    by simp
  from pos 1 l 2 posd d 3 show ?thesis by blast
qed

text \<open>
  Claim C4 (dry-run invariant), as amended: \<^verbatim>\<open>patchesApplied\<close> is 0 in the result of
  every job that did not fail. When the normalized \<^verbatim>\<open>dryRun\<close> option is true, the run
  makes no call of \<^verbatim>\<open>patchManagedEndpoint\<close>, whether it returns a summary or rejects;
  the summary has \<^verbatim>\<open>dryRun\<close> set and \<^verbatim>\<open>totalAppliedPatches\<close> 0, and every full job
  result in it has \<^verbatim>\<open>patchesApplied\<close> 0.
\<close>

theorem dry_run_invariant:
  assumes "dryRun (normalizeOptions options)"
    and "runSync C includeName cfg options w = (out, tr, w')"
  shows "patch_calls tr = []
       \<and> (\<forall>s. out = Inr s \<longrightarrow> sum_dryRun s \<and> sum_totalAppliedPatches s = 0
             \<and> (\<forall>jr. JobDone jr \<in> set (results s) \<longrightarrow> patchesApplied jr = 0))"
proof -
  from runSync_cases[of C w includeName cfg options] show ?thesis
  proof
    assume "\<exists>err w1. getAction1AccessToken C w = (Inl err, w1)
       \<and> runSync C includeName cfg options w = (Inl err, [TokenCall], w1)"
    with assms(2) show ?thesis by (auto simp: patch_calls_def)
  next
    assume "\<exists>tok w1 st. getAction1AccessToken C w = (Inr tok, w1)
       \<and> st = runJobs C (normalizeOptions options) includeName tok (getSyncJobs cfg) (start_state w1)
       \<and> runSync C includeName cfg options w
           = (Inr (summary_of (normalizeOptions options) (getSyncJobs cfg) st), trace st, world st)"
    then obtain tok w1 st where
      st: "st = runJobs C (normalizeOptions options) includeName tok (getSyncJobs cfg) (start_state w1)"
      and r: "runSync C includeName cfg options w
           = (Inr (summary_of (normalizeOptions options) (getSyncJobs cfg) st), trace st, world st)"
      by blast
    have "dry_inv st" unfolding st using assms(1) by (rule dry_inv_runJobs) (rule start_state_invs)
    with r assms show ?thesis by (auto simp: dry_inv_def summary_of_def)
  qed
qed

theorem dry_run_invariant_witness:
  "dryRun (normalizeOptions [(''maxPatchesPerJob'', JNum 2)])
   \<and> patch_calls (run_trace (runSync ex_platform False ex_config [(''maxPatchesPerJob'', JNum 2)] 0)) = []
   \<and> run_limits (runSync ex_platform False ex_config [(''maxPatchesPerJob'', JNum 2)] 0)
       = Inr [Some (3, 2, 0, Some ''maxPatchesPerJob=2''), Some (3, 2, 0, Some ''maxPatchesPerJob=2'')]"
proof -
  let ?out = "runSync ex_platform False ex_config [(''maxPatchesPerJob'', JNum 2)] 0"
  have d: "dryRun (normalizeOptions [(''maxPatchesPerJob'', JNum 2)])" by code_simp
  have l: "run_limits ?out
       = Inr [Some (3, 2, 0, Some ''maxPatchesPerJob=2''), Some (3, 2, 0, Some ''maxPatchesPerJob=2'')]"
    by code_simp
  have o: "?out = (fst ?out, run_trace ?out, snd (snd ?out))" by (simp add: run_trace_def)
  from dry_run_invariant[OF d o] d l show ?thesis by simp
qed

text \<open>
  Claim C4 as stated fails for a failed job: its result has the four properties of
  the \<^verbatim>\<open>catch\<close> block only, so \<^verbatim>\<open>patchesApplied\<close> is \<^verbatim>\<open>undefined\<close>, not 0. Here the
  endpoint listing of the first of two jobs throws in a dry run.
\<close>

theorem dry_run_failed_job_counterexample:
  "dryRun (normalizeOptions [])
   \<and> run_fields (runSync ex_listing_down False ex_config [] 0) = Inr [None, Some 0]"
  by code_simp

text \<open>
  Claim C5 (per-job limit), as amended: the global limit may cut the list further, and
  \<^verbatim>\<open>maxPatchesPerJob\<close> is not negative. For a job whose planned patches exceed
  \<^verbatim>\<open>maxPatchesPerJob\<close>, the list to process is the first \<open>k\<close> planned patches, \<open>k\<close> the
  smaller of \<^verbatim>\<open>maxPatchesPerJob\<close> and what the global limit leaves; the job result
  reports \<open>k\<close> as \<^verbatim>\<open>patchesToProcess\<close>, and its \<^verbatim>\<open>limitedBy\<close> begins with
  \<^verbatim>\<open>maxPatchesPerJob=N\<close>. When the global limit leaves room for \<^verbatim>\<open>maxPatchesPerJob\<close>
  patches, exactly that many are processed and \<^verbatim>\<open>limitedBy\<close> is \<^verbatim>\<open>maxPatchesPerJob=N\<close>.
\<close>

theorem per_job_limit:
  fixes st :: "'w run_state"
  assumes "int (length (job_patches job devs eps)) > maxPatchesPerJob opts"
    and "0 \<le> maxPatchesPerJob opts"
  shows "\<exists>jr. jobResults (finishJob C opts token job devs eps st) = jobResults st @ [JobDone jr]
     \<and> patchesPlanned jr = length (job_patches job devs eps)
     \<and> fst (safetyLimits opts (totalAppliedPatches st) (job_patches job devs eps))
         = take (nat (min (maxPatchesPerJob opts)
                   (max 0 (maxTotalPatches opts - int (totalAppliedPatches st)))))
             (job_patches job devs eps)
     \<and> int (patchesToProcess jr)
         = min (maxPatchesPerJob opts) (max 0 (maxTotalPatches opts - int (totalAppliedPatches st)))
     \<and> (\<exists>rest. limitedBy jr
           = Some (''maxPatchesPerJob='' @ show_int (maxPatchesPerJob opts) @ rest))
     \<and> (int (totalAppliedPatches st) + maxPatchesPerJob opts \<le> maxTotalPatches opts \<longrightarrow>
          int (patchesToProcess jr) = maxPatchesPerJob opts
        \<and> limitedBy jr = Some (''maxPatchesPerJob='' @ show_int (maxPatchesPerJob opts)))"
proof -
  let ?planned = "job_patches job devs eps" and ?n = "totalAppliedPatches st"
  let ?k = "min (maxPatchesPerJob opts) (max 0 (maxTotalPatches opts - int ?n))"
  note lim = safetyLimits_over[OF assms, of ?n]
  from finishJob_effect[of C opts token job devs eps st]
  obtain jr where jr: "jobResults (finishJob C opts token job devs eps st) = jobResults st @ [JobDone jr]"
    "patchesPlanned jr = length ?planned"
    "patchesToProcess jr = length (fst (safetyLimits opts ?n ?planned))"
    "limitedBy jr = snd (safetyLimits opts ?n ?planned)" by blast
  have k: "0 \<le> ?k" "?k \<le> int (length ?planned)" using assms by simp_all
  have len: "int (patchesToProcess jr) = ?k"
    unfolding jr(3) using lim k by simp
  have full: "int (patchesToProcess jr) = maxPatchesPerJob opts
        \<and> limitedBy jr = Some (''maxPatchesPerJob='' @ show_int (maxPatchesPerJob opts))"
    if "int ?n + maxPatchesPerJob opts \<le> maxTotalPatches opts"
    using that lim len jr(4) by simp
  from jr lim len full show ?thesis by (intro exI[of _ jr]) simp
qed

theorem per_job_limit_witness:
  "int (length (job_patches (ex_job ''org-a'') fleet_devices [ep_lap]))
      > maxPatchesPerJob (normalizeOptions [])
   \<and> 0 \<le> maxPatchesPerJob (normalizeOptions [])
   \<and> int (totalAppliedPatches (start_state (0::nat))) + maxPatchesPerJob (normalizeOptions [])
      \<le> maxTotalPatches (normalizeOptions [])
   \<and> (\<exists>jr. jobResults (finishJob fleet_platform (normalizeOptions []) ''token'' (ex_job ''org-a'')
                fleet_devices [ep_lap] (start_state 0)) = [JobDone jr]
         \<and> patchesPlanned jr = 70 \<and> patchesToProcess jr = 50
         \<and> limitedBy jr = Some ''maxPatchesPerJob=50'')"
proof -
  let ?opts = "normalizeOptions []"
  have m: "maxPatchesPerJob ?opts = 50" "maxTotalPatches ?opts = 200" by code_simp+
  have s: "show_int 50 = ''50''" by code_simp
  have one: "concat (map (pair_patches (mappings (ex_job ''org-a'')))
       (matched (classify (buildEndpointIndex [ep_lap]) (buildEndpointShortIndex [ep_lap]) dev_lap)))
     = [ex_item]" by code_simp
  have p: "length (job_patches (ex_job ''org-a'') fleet_devices [ep_lap]) = 70"
    by (simp add: fleet_devices_def job_patches_replicate one length_concat sum_list_replicate)
  have 1: "int (length (job_patches (ex_job ''org-a'') fleet_devices [ep_lap])) > maxPatchesPerJob ?opts"
    by (simp add: m p)
  have 2: "0 \<le> maxPatchesPerJob ?opts" by (simp add: m)
  have 3: "int (totalAppliedPatches (start_state (0::nat))) + maxPatchesPerJob ?opts
      \<le> maxTotalPatches ?opts" by (simp add: m start_state_def)
  from per_job_limit[OF 1 2, of fleet_platform "''token''" "start_state (0::nat)"] 3
  obtain jr where "jobResults (finishJob fleet_platform ?opts ''token'' (ex_job ''org-a'')
                fleet_devices [ep_lap] (start_state 0)) = jobResults (start_state (0::nat)) @ [JobDone jr]"
    "patchesPlanned jr = length (job_patches (ex_job ''org-a'') fleet_devices [ep_lap])"
    "int (patchesToProcess jr) = maxPatchesPerJob ?opts"
    "limitedBy jr = Some (''maxPatchesPerJob='' @ show_int (maxPatchesPerJob ?opts))"
    by blast
  then have "jobResults (finishJob fleet_platform ?opts ''token'' (ex_job ''org-a'')
                fleet_devices [ep_lap] (start_state 0)) = [JobDone jr]
         \<and> patchesPlanned jr = 70 \<and> patchesToProcess jr = 50
         \<and> limitedBy jr = Some ''maxPatchesPerJob=50''"
    by (simp add: m s p start_state_def)
  with 1 2 3 show ?thesis by blast
qed

text \<open>
  Claim C5 as stated fails when the global limit is nearly used up: with
  \<^verbatim>\<open>maxPatchesPerJob = 2\<close> and \<^verbatim>\<open>maxTotalPatches = 3\<close>, the second job plans 3 patches
  and processes 1, not 2.
\<close>

theorem per_job_limit_global_counterexample:
  "maxPatchesPerJob (normalizeOptions apply_options) = 2
   \<and> run_limits (runSync ex_platform False ex_config apply_options 0)
       = Inr [Some (3, 2, 2, Some ''maxPatchesPerJob=2''),
              Some (3, 1, 1, Some ''maxPatchesPerJob=2, maxTotalPatches=3'')]"
  by code_simp

text \<open>
  Claim C7 (error isolation). When, at any iteration of the job loop, the directory
  fetch or the endpoint listing of the job throws \<open>err\<close>, the loop appends the result
  with exactly \<^verbatim>\<open>tenantName\<close>, \<^verbatim>\<open>organizationId\<close>, \<^verbatim>\<open>error\<close> (the text of \<open>err\<close>) and
  \<^verbatim>\<open>dryRun\<close>, changes neither counter and makes no patch call; it then stops if
  \<^verbatim>\<open>stopOnJobError\<close> is set and otherwise goes on with the remaining jobs, each of which
  yields its own result, in order.
\<close>

theorem job_failure_isolated:
  fixes st :: "'w run_state"
  assumes "fst (fetchEntraDevices C opts includeName job st) = Inl err
     \<or> (\<exists>devs st0. fetchEntraDevices C opts includeName job st = (Inr devs, st0)
          \<and> fst (listManagedEndpoints C token (organizationId job) (endpointPageSize opts) (world st0))
               = Inl err)"
  shows "\<exists>st1. jobResults st1 = jobResults st @
             [JobFailed \<lparr>jf_tenantName = tenant_name (tenant job),
                         jf_organizationId = organizationId job,
                         jf_error = error_text err, jf_dryRun = dryRun opts\<rparr>]
       \<and> totalPlannedPatches st1 = totalPlannedPatches st
       \<and> totalAppliedPatches st1 = totalAppliedPatches st
       \<and> patch_calls (trace st1) = patch_calls (trace st)
       \<and> runJobs C opts includeName token (job # rest) st
            = (if stopOnJobError opts then st1 else runJobs C opts includeName token rest st1)
       \<and> (\<not> stopOnJobError opts \<longrightarrow>
            map result_ident (jobResults (runJobs C opts includeName token (job # rest) st))
              = map result_ident (jobResults st) @ job_ident job # map job_ident rest)"
proof -
  have "\<exists>s1. tryJob C opts includeName token job st = (Inl err, s1)"
    using assms
  proof
    assume "fst (fetchEntraDevices C opts includeName job st) = Inl err"
    then show ?thesis
      by (cases "fetchEntraDevices C opts includeName job st") (simp add: tryJob_def)
  next
    assume "\<exists>devs st0. fetchEntraDevices C opts includeName job st = (Inr devs, st0)
          \<and> fst (listManagedEndpoints C token (organizationId job) (endpointPageSize opts) (world st0))
               = Inl err"
    then obtain devs st0 where f: "fetchEntraDevices C opts includeName job st = (Inr devs, st0)"
      and l: "fst (listManagedEndpoints C token (organizationId job) (endpointPageSize opts) (world st0))
               = Inl err" by blast
    from l f show ?thesis
      by (cases "listManagedEndpoints C token (organizationId job) (endpointPageSize opts) (world st0)")
        (simp add: tryJob_def)
  qed
  then obtain s1 where t: "tryJob C opts includeName token job st = (Inl err, s1)" ..
  let ?st1 = "s1\<lparr>jobResults := jobResults s1 @ [failedResult opts job err]\<rparr>"
  from tryJob_step[OF t] have c: "same_core st s1" by simp
  have r: "runJobs C opts includeName token (job # rest) st
            = (if stopOnJobError opts then ?st1 else runJobs C opts includeName token rest ?st1)"
    using t by (simp add: Let_def)
  have i: "map result_ident (jobResults (runJobs C opts includeName token (job # rest) st))
              = map result_ident (jobResults st) @ job_ident job # map job_ident rest"
    if ns: "\<not> stopOnJobError opts"
  proof -
    from runJobs_idents_prefix[of "job # rest" C opts includeName token st] ns
    show ?thesis by auto
  qed
  from c r i show ?thesis
    by (intro exI[of _ ?st1]) (simp add: same_core_def failedResult_def)
qed

theorem job_failure_isolated_witness:
  "(\<exists>devs st0. fetchEntraDevices ex_listing_down (normalizeOptions []) False (ex_job ''org-a'') (start_state 1)
        = (Inr devs, st0)
      \<and> fst (listManagedEndpoints ex_listing_down ''token'' (organizationId (ex_job ''org-a''))
               (endpointPageSize (normalizeOptions [])) (world st0)) = Inl (JsError ''Error'' ''HTTP 503''))
   \<and> \<not> stopOnJobError (normalizeOptions [])
   \<and> map result_ident (jobResults (runJobs ex_listing_down (normalizeOptions []) False ''token''
         [ex_job ''org-a'', ex_job ''org-b''] (start_state 1)))
       = [(''Contoso'', ''org-a''), (''Contoso'', ''org-b'')]
   \<and> run_fields (runSync ex_listing_down False ex_config [] 0) = Inr [None, Some 0]"
proof -
  let ?opts = "normalizeOptions []"
  let ?f = "fetchEntraDevices ex_listing_down ?opts False (ex_job ''org-a'') (start_state 1)"
  let ?err = "JsError ''Error'' ''HTTP 503''"
  have f: "fst ?f = Inr ex_devices" by code_simp
  have l: "fst (listManagedEndpoints ex_listing_down ''token'' (organizationId (ex_job ''org-a''))
               (endpointPageSize ?opts) (world (snd ?f))) = Inl ?err" by code_simp
  have ns: "\<not> stopOnJobError ?opts" by code_simp
  have rf: "run_fields (runSync ex_listing_down False ex_config [] 0) = Inr [None, Some 0]"
    by code_simp
  have ids: "job_ident (ex_job ''org-a'') = (''Contoso'', ''org-a'')"
    "job_ident (ex_job ''org-b'') = (''Contoso'', ''org-b'')" by code_simp+
  from f have fp: "?f = (Inr ex_devices, snd ?f)" by (cases ?f) simp
  with l have h: "\<exists>devs st0. ?f = (Inr devs, st0)
      \<and> fst (listManagedEndpoints ex_listing_down ''token'' (organizationId (ex_job ''org-a''))
               (endpointPageSize ?opts) (world st0)) = Inl ?err" by blast
  then have "fst ?f = Inl ?err \<or> (\<exists>devs st0. ?f = (Inr devs, st0)
      \<and> fst (listManagedEndpoints ex_listing_down ''token'' (organizationId (ex_job ''org-a''))
               (endpointPageSize ?opts) (world st0)) = Inl ?err)" ..
  from job_failure_isolated[OF this, of "[ex_job ''org-b'']"] ns
  have "map result_ident (jobResults (runJobs ex_listing_down ?opts False ''token''
         [ex_job ''org-a'', ex_job ''org-b''] (start_state 1)))
       = map result_ident (jobResults (start_state (1::nat))) @ [job_ident (ex_job ''org-a''), job_ident (ex_job ''org-b'')]"
    by auto
  with h ns rf show ?thesis by (simp add: ids start_state_def)
qed



text \<open>
  Claim C10 (summary consistency). In the summary of every run that returns one,
  \<^verbatim>\<open>totalPlannedPatches\<close> is the sum of \<^verbatim>\<open>patchesPlanned\<close> and \<^verbatim>\<open>totalAppliedPatches\<close> the
  sum of \<^verbatim>\<open>patchesApplied\<close> over the job results, a failed job counting zero for both.
\<close>

theorem summary_totals_consistent:
  assumes "fst (runSync C includeName cfg options w) = Inr s"
  shows "sum_totalPlannedPatches s = sum_list (map result_planned (results s))
       \<and> sum_totalAppliedPatches s = sum_list (map result_applied (results s))"
proof -
  from runSync_cases[of C w includeName cfg options] assms
  obtain tok w1 st where
    st: "st = runJobs C (normalizeOptions options) includeName tok (getSyncJobs cfg) (start_state w1)"
    and s: "s = summary_of (normalizeOptions options) (getSyncJobs cfg) st"
    by auto
  have "sums_inv st" unfolding st by (rule sums_inv_runJobs) (rule start_state_invs)
  then show ?thesis by (simp add: s summary_of_def sums_inv_def)
qed

theorem summary_totals_consistent_witness:
  "\<exists>s. fst (runSync ex_listing_down False ex_config apply_options 0) = Inr s
     \<and> sum_totalPlannedPatches s = 3 \<and> map result_planned (results s) = [0, 3]
     \<and> sum_totalAppliedPatches s = 2 \<and> map result_applied (results s) = [0, 2]"
proof -
  let ?out = "runSync ex_listing_down False ex_config apply_options 0"
  have t: "run_totals ?out = Inr (3, 2)" by code_simp
  have l: "run_sums ?out = Inr ([0, 3], [0, 2])" by code_simp
  from t obtain s tr w' where o: "?out = (Inr s, tr, w')" by (rule run_Inr)
  then have f: "fst ?out = Inr s" by simp
  from l o have m: "map result_planned (results s) = [0, 3]" "map result_applied (results s) = [0, 2]"
    by (simp_all add: run_sums_def)
  from summary_totals_consistent[OF f] f m show ?thesis by simp
qed

end
